theory Spec2Isabelle
  imports Main
begin

section \<open>Garbage collection of the local chunk store (swarm/storage/localstore/gc.go)\<close>

subsection \<open>Package variables and the collection target\<close>

text \<open>
  \<^verbatim>\<open>gcTargetRatio = 0.9\<close> is a float64 variable. The float64 nearest to 0.9 is
  \<open>8106479329266893 / 2 ^ 53\<close> (bit pattern 0x3FECCCCCCCCCCCCD); only its
  significand is needed below. \<^verbatim>\<open>gcBatchSize\<close> is an int64 variable, initially 1000;
  the functions below take the batch size as a parameter \<open>bs\<close>, so that the
  initial value is one instance.
\<close>

definition gcTargetRatio_significand :: nat where
  "gcTargetRatio_significand = 8106479329266893"

definition gcBatchSize :: int where
  "gcBatchSize = 1000"

text \<open>Number of binary digits of a natural number (0 for 0).\<close>

fun bitlen :: "nat \<Rightarrow> nat" where
  "bitlen n = (if n = 0 then 0 else Suc (bitlen (n div 2)))"

declare bitlen.simps [simp del]

text \<open>
  Rounding of a natural number to the nearest number with at most 53 significant
  binary digits, ties to the even significand: the rounding of every float64
  operation (IEEE 754 binary64, round to nearest even). Exponent overflow and
  subnormal numbers cannot occur for the magnitudes of an int64.
\<close>

definition round53 :: "nat \<Rightarrow> nat" where
  "round53 n =
     (if n < 2 ^ 53 then n
      else let k = bitlen n - 53;
               q = n div 2 ^ k;
               r = n mod 2 ^ k;
               h = 2 ^ (k - 1)
           in (if h < r \<or> (r = h \<and> odd q) then q + 1 else q) * 2 ^ k)"

subsection \<open>The store\<close>

type_synonym error = string

datatype index_id =
  RetrievalCompositeIndex | RetrievalDataIndex | RetrievalAccessIndex | PullIndex | GCIndex

text \<open>
  A \<^verbatim>\<open>leveldb.Batch\<close> as the list of queued deletions, oldest first. The type
  \<open>'i\<close> stands for \<^verbatim>\<open>shed.IndexItem\<close>.
\<close>

type_synonym 'i batch = "(index_id \<times> 'i) list"

text \<open>
  The fields of \<^verbatim>\<open>DB\<close> that gc.go uses. The int64 fields \<open>capacity\<close> and
  \<open>gcSize\<close> are integers without wrap-around: the specification takes counts
  to fit the native width. Every index is the list of its entries in iteration
  order. The channel \<^verbatim>\<open>collectGarbageTrigger\<close> is declared with the type
  \<^verbatim>\<open>DB\<close>, outside gc.go; the specification calls it a single-slot signal, so
  its state is whether the slot holds a signal.
\<close>

record 'i DB =
  capacity :: int
  gcSize :: int
  collectGarbageTrigger :: bool
  useRetrievalCompositeIndex :: bool
  retrievalCompositeIndex :: "'i list"
  retrievalDataIndex :: "'i list"
  retrievalAccessIndex :: "'i list"
  pullIndex :: "'i list"
  gcIndex :: "'i list"

text \<open>
  Modelled from the spec: the capacity of the channel, one slot. The statement
  \<^verbatim>\<open>select { case db.collectGarbageTrigger <- struct{}{}: default: }\<close>
  is a send that is dropped when the slot is full.
\<close>

definition trySend :: "'i DB \<Rightarrow> 'i DB" where
  "trySend db = (if collectGarbageTrigger db then db else db\<lparr>collectGarbageTrigger := True\<rparr>)"

text \<open>
  Modelled from the spec: the capacity of the channel, one slot. The branch
  \<^verbatim>\<open>case <-db.collectGarbageTrigger\<close> is enabled only when a signal is
  pending, and takes it.
\<close>

definition tryRecv :: "'i DB \<Rightarrow> 'i DB option" where
  "tryRecv db = (if collectGarbageTrigger db then Some (db\<lparr>collectGarbageTrigger := False\<rparr>) else None)"

text \<open>
  \<^verbatim>\<open>int64(float64(db.capacity) * gcTargetRatio)\<close>: the conversion to float64
  rounds, the product rounds, the conversion to int64 truncates towards zero.
  Rounding is symmetric in the sign, so the magnitude is computed.
\<close>

definition gcTarget :: "'i DB \<Rightarrow> int" where
  "gcTarget db =
     (let c = capacity db;
          x = round53 (nat \<bar>c\<bar>);
          p = round53 (x * gcTargetRatio_significand)
      in sgn c * int (p div 2 ^ 53))"

text \<open>
  \<^verbatim>\<open>incGCSize\<close> (gc.go, lines 112 to 120). \<^verbatim>\<open>atomic.AddInt64\<close> adds in int64
  and wraps around; \<open>gcSize db + count\<close> is the sum without wrap-around, which is
  the value the source computes exactly when the sum lies in the range of int64
  (\<open>int64\<close> below). The decrement of a pass always does: the visitor keeps
  \<open>gcSize - collectedCount\<close> between the target and \<open>gcSize\<close>. A caller in
  the foreground may pass any count, so the statements that depend on the sums of
  foreground increments (claims C6 and C8) assume that these lie in that range.
\<close>

definition incGCSize :: "'i DB \<Rightarrow> int \<Rightarrow> 'i DB" where
  "incGCSize db count =
     (let new = gcSize db + count;
          db' = db\<lparr>gcSize := new\<rparr>
      in if new \<ge> capacity db' then trySend db' else db')"

subsection \<open>The storage engine, at its interface\<close>

text \<open>
  \<^verbatim>\<open>Index.DeleteInBatch\<close>, \<^verbatim>\<open>Index.IterateAll\<close> and \<^verbatim>\<open>DB.WriteBatch\<close>
  belong to package shed, outside gc.go; gc.go fixes how they are called, the
  specification what they do.
\<close>

text \<open>
  Modelled from the spec: \<^verbatim>\<open>Index.DeleteInBatch\<close> of package shed, which the
  specification describes as \<open>deleteInBatch(batch, item)\<close>: queue a delete. The
  index is named by the receiver of the call.
\<close>

definition DeleteInBatch :: "index_id \<Rightarrow> 'i batch \<Rightarrow> 'i \<Rightarrow> 'i batch" where
  "DeleteInBatch ix b item = b @ [(ix, item)]"

text \<open>
  Modelled from the spec: \<^verbatim>\<open>Index.IterateAll\<close> of package shed, which the
  specification describes as \<open>iterateOrdered(visit(item) \<rightarrow> (stop, err))\<close>: an
  ascending traversal with early stop. It ends when the entries end, when the
  iterator fails (\<open>Inl\<close>), when the visitor returns an error, or when the visitor
  asks to stop.
\<close>

fun IterateAll ::
  "('s \<Rightarrow> 'i \<Rightarrow> bool \<times> error option \<times> 's) \<Rightarrow> (error + 'i) list \<Rightarrow> 's \<Rightarrow> error option \<times> 's" where
  "IterateAll fn [] s = (None, s)"
| "IterateAll fn (Inl e # rest) s = (Some e, s)"
| "IterateAll fn (Inr item # rest) s =
     (case fn s item of
        (stop, Some e, s') \<Rightarrow> (Some e, s')
      | (stop, None, s') \<Rightarrow> if stop then (None, s') else IterateAll fn rest s')"

text \<open>
  Modelled from the spec: the iterator of package shed over an index. It yields
  the entries of the index, or, when the engine fails after \<open>k\<close> entries with
  error \<open>e\<close> (the IterationError of the specification: an index read that
  fails mid-scan), the first \<open>k\<close> entries and then the error.
\<close>

definition entries :: "(nat \<times> error) option \<Rightarrow> 'i list \<Rightarrow> (error + 'i) list" where
  "entries fault xs =
     (case fault of
        None \<Rightarrow> map Inr xs
      | Some (k, e) \<Rightarrow> map Inr (take k xs) @ [Inl e])"

text \<open>
  Modelled from the spec: the effect of one queued delete when its batch is
  written; the entry leaves the index it was queued for.
\<close>

fun deleteEntry :: "index_id \<times> 'i \<Rightarrow> 'i DB \<Rightarrow> 'i DB" where
  "deleteEntry (RetrievalCompositeIndex, x) db =
     db\<lparr>retrievalCompositeIndex := removeAll x (retrievalCompositeIndex db)\<rparr>"
| "deleteEntry (RetrievalDataIndex, x) db =
     db\<lparr>retrievalDataIndex := removeAll x (retrievalDataIndex db)\<rparr>"
| "deleteEntry (RetrievalAccessIndex, x) db =
     db\<lparr>retrievalAccessIndex := removeAll x (retrievalAccessIndex db)\<rparr>"
| "deleteEntry (PullIndex, x) db =
     db\<lparr>pullIndex := removeAll x (pullIndex db)\<rparr>"
| "deleteEntry (GCIndex, x) db =
     db\<lparr>gcIndex := removeAll x (gcIndex db)\<rparr>"

text \<open>
  Modelled from the spec: \<^verbatim>\<open>DB.WriteBatch\<close> of package shed, which the
  specification describes as \<open>commit(batch) \<rightarrow> error\<close>, an atomic write: every
  delete of the batch is applied, or, when the engine fails, none.
\<close>

definition WriteBatch :: "error option \<Rightarrow> 'i batch \<Rightarrow> 'i DB \<Rightarrow> error option \<times> 'i DB" where
  "WriteBatch fault b db =
     (case fault of
        Some e \<Rightarrow> (Some e, db)
      | None \<Rightarrow> (None, fold deleteEntry b db))"

subsection \<open>One collection pass\<close>

text \<open>The variables that the visitor closure of \<^verbatim>\<open>collectGarbage\<close> captures and updates.\<close>

record 'i gcRun =
  batch :: "'i batch"
  collectedCount :: int
  triggerNextIteration :: bool

text \<open>
  The function literal passed to \<^verbatim>\<open>db.gcIndex.IterateAll\<close> (gc.go, lines 56
  to 76). A pass is run with no foreground writer between its steps, so the value
  that \<^verbatim>\<open>atomic.LoadInt64(&db.gcSize)\<close> reads at a visit is the accountant of
  the store on which the pass runs. The results of \<^verbatim>\<open>DeleteInBatch\<close> are
  discarded by the source.
\<close>

definition gcVisit ::
  "int \<Rightarrow> int \<Rightarrow> 'i DB \<Rightarrow> 'i gcRun \<Rightarrow> 'i \<Rightarrow> bool \<times> error option \<times> 'i gcRun" where
  "gcVisit target bs db r item =
     (if gcSize db - collectedCount r \<le> target then (True, None, r)
      else
        let b1 = (if useRetrievalCompositeIndex db
                  then DeleteInBatch RetrievalCompositeIndex (batch r) item
                  else DeleteInBatch RetrievalAccessIndex
                         (DeleteInBatch RetrievalDataIndex (batch r) item) item);
            b2 = DeleteInBatch PullIndex b1 item;
            b3 = DeleteInBatch GCIndex b2 item;
            r' = r\<lparr>batch := b3, collectedCount := collectedCount r + 1\<rparr>
        in if collectedCount r' \<ge> bs
           then (True, None, r'\<lparr>triggerNextIteration := True\<rparr>)
           else (False, None, r'))"

text \<open>
  The faults that the storage engine injects into one pass: a failure of the
  iterator after some entries, a failure of the batch write.
\<close>

record faults =
  iterFault :: "(nat \<times> error) option"
  writeFault :: "error option"

text \<open>
  What one pass leaves behind: the store, the lines handed to \<^verbatim>\<open>log.Error\<close>,
  the result of \<^verbatim>\<open>IterateAll\<close>, the closure variables at the end of the
  iteration, the result of \<^verbatim>\<open>WriteBatch\<close>, and the argument that
  \<^verbatim>\<open>testHookCollectGarbage\<close> receives when it is set.
\<close>

record 'i pass =
  store_after :: "'i DB"
  logged :: "(string \<times> error) list"
  iterErr :: "error option"
  run :: "'i gcRun"
  writeErr :: "error option"
  hooked :: int

text \<open>
  The call of \<^verbatim>\<open>db.gcIndex.IterateAll\<close> with the fresh closure variables
  (gc.go, lines 51 to 76).
\<close>

definition gcIterate :: "int \<Rightarrow> int \<Rightarrow> faults \<Rightarrow> 'i DB \<Rightarrow> error option \<times> 'i gcRun" where
  "gcIterate target bs f db =
     IterateAll (gcVisit target bs db) (entries (iterFault f) (gcIndex db))
       \<lparr>batch = [], collectedCount = 0, triggerNextIteration = False\<rparr>"

text \<open>
  The body of \<^verbatim>\<open>case <-db.collectGarbageTrigger:\<close> (gc.go, lines 51 to 97), run
  on the store from which the signal has been received.
\<close>

definition collectGarbage_pass :: "int \<Rightarrow> int \<Rightarrow> faults \<Rightarrow> 'i DB \<Rightarrow> 'i pass" where
  "collectGarbage_pass target bs f db =
     (let (err, r) = gcIterate target bs f db;
          log1 = (case err of Some e \<Rightarrow> [(''localstore collect garbage'', e)] | None \<Rightarrow> []);
          (werr, db1) = WriteBatch (writeFault f) (batch r) db
      in case werr of
           Some e \<Rightarrow>
             \<lparr>store_after = db1,
              logged = log1 @ [(''localstore collect garbage write batch'', e)],
              iterErr = err, run = r, writeErr = werr, hooked = collectedCount r\<rparr>
         | None \<Rightarrow>
             let db2 = incGCSize db1 (- collectedCount r);
                 db3 = (if triggerNextIteration r then trySend db2 else db2)
             in \<lparr>store_after = db3, logged = log1, iterErr = err, run = r, writeErr = werr,
                 hooked = collectedCount r\<rparr>)"

subsection \<open>The collector loop among the foreground writers\<close>

text \<open>
  The loop of \<^verbatim>\<open>collectGarbage\<close> blocks in a \<^verbatim>\<open>select\<close>; what happens next is
  chosen by its environment. An event is a foreground call of \<^verbatim>\<open>incGCSize\<close>, a
  foreground write of an index entry, the collector taking the trigger branch
  (with the faults of that pass), or the collector taking the \<^verbatim>\<open>db.close\<close> branch.
\<close>

datatype 'i event =
  IncGCSize int
| IndexPut index_id 'i
| Trigger faults
| Shutdown

datatype collector = Idle | Closed

record 'i world =
  store :: "'i DB"
  collector :: collector
  logs :: "(string \<times> error) list"
  hookCalls :: "int list"

text \<open>
  Modelled from the spec: a foreground write of an index entry (the admission of
  a chunk by the store, outside gc.go); the entry is appended to the index.
\<close>

fun putEntry :: "index_id \<Rightarrow> 'i \<Rightarrow> 'i DB \<Rightarrow> 'i DB" where
  "putEntry RetrievalCompositeIndex x db =
     db\<lparr>retrievalCompositeIndex := retrievalCompositeIndex db @ [x]\<rparr>"
| "putEntry RetrievalDataIndex x db = db\<lparr>retrievalDataIndex := retrievalDataIndex db @ [x]\<rparr>"
| "putEntry RetrievalAccessIndex x db =
     db\<lparr>retrievalAccessIndex := retrievalAccessIndex db @ [x]\<rparr>"
| "putEntry PullIndex x db = db\<lparr>pullIndex := pullIndex db @ [x]\<rparr>"
| "putEntry GCIndex x db = db\<lparr>gcIndex := gcIndex db @ [x]\<rparr>"

text \<open>
  One event. The trigger branch is taken only by a collector that has not
  returned and only when a signal is pending; otherwise the collector stays
  blocked and nothing changes.
\<close>

fun step :: "int \<Rightarrow> int \<Rightarrow> 'i world \<Rightarrow> 'i event \<Rightarrow> 'i world" where
  "step target bs w (IncGCSize n) = w\<lparr>store := incGCSize (store w) n\<rparr>"
| "step target bs w (IndexPut ix x) = w\<lparr>store := putEntry ix x (store w)\<rparr>"
| "step target bs w Shutdown = w\<lparr>collector := Closed\<rparr>"
| "step target bs w (Trigger f) =
     (if collector w = Closed then w
      else case tryRecv (store w) of
             None \<Rightarrow> w
           | Some db \<Rightarrow>
               let p = collectGarbage_pass target bs f db
               in w\<lparr>store := store_after p,
                    logs := logs w @ logged p,
                    hookCalls := hookCalls w @ [hooked p]\<rparr>)"

text \<open>
  \<^verbatim>\<open>collectGarbage\<close>: the target is computed once, before the loop; the loop
  then serves the events in turn, starting with no line logged and no call of the
  test hook.
\<close>

definition started :: "'i DB \<Rightarrow> 'i world" where
  "started db = \<lparr>store = db, collector = Idle, logs = [], hookCalls = []\<rparr>"

definition collectGarbage :: "int \<Rightarrow> 'i DB \<Rightarrow> 'i event list \<Rightarrow> 'i world" where
  "collectGarbage bs db evs = foldl (step (gcTarget db) bs) (started db) evs"

subsection \<open>Notions used in the statements\<close>

text \<open>The deletions that one visit queues for an entry, in the order of the source.\<close>

definition deletions :: "'i DB \<Rightarrow> 'i \<Rightarrow> 'i batch" where
  "deletions db item =
     (if useRetrievalCompositeIndex db then [(RetrievalCompositeIndex, item)]
      else [(RetrievalDataIndex, item), (RetrievalAccessIndex, item)])
     @ [(PullIndex, item), (GCIndex, item)]"

text \<open>The range of an int64.\<close>

definition int64 :: "int \<Rightarrow> bool" where
  "int64 x \<longleftrightarrow> - (2 ^ 63) \<le> x \<and> x < 2 ^ 63"

text \<open>
  The values that \<^verbatim>\<open>atomic.AddInt64\<close> returns in a sequence of calls of
  \<^verbatim>\<open>incGCSize\<close>, as long as they lie in the range of int64.
\<close>

fun results :: "'i DB \<Rightarrow> int list \<Rightarrow> int list" where
  "results db [] = []"
| "results db (c # cs) = (gcSize db + c) # results (incGCSize db c) cs"

text \<open>The sum of the counts of the foreground calls of \<^verbatim>\<open>incGCSize\<close> in a sequence of events.\<close>

fun admitted :: "'i event list \<Rightarrow> int" where
  "admitted [] = 0"
| "admitted (IncGCSize n # evs) = n + admitted evs"
| "admitted (_ # evs) = admitted evs"

text \<open>Whether every foreground call of \<^verbatim>\<open>incGCSize\<close> in a sequence of events is an admission.\<close>

fun admissions :: "'i event list \<Rightarrow> bool" where
  "admissions [] = True"
| "admissions (IncGCSize n # evs) = (0 < n \<and> admissions evs)"
| "admissions (_ # evs) = admissions evs"

text \<open>
  The number of entries that one event removes: the collected count of a pass
  that runs and whose batch is written, 0 for everything else.
\<close>

fun evictedBy :: "int \<Rightarrow> int \<Rightarrow> 'i world \<Rightarrow> 'i event \<Rightarrow> int" where
  "evictedBy target bs w (Trigger f) =
     (if collector w = Closed then 0
      else case tryRecv (store w) of
             None \<Rightarrow> 0
           | Some db \<Rightarrow>
               let p = collectGarbage_pass target bs f db
               in if writeErr p = None then collectedCount (run p) else 0)"
| "evictedBy target bs w _ = 0"

fun evicted :: "int \<Rightarrow> int \<Rightarrow> 'i world \<Rightarrow> 'i event list \<Rightarrow> int" where
  "evicted target bs w [] = 0"
| "evicted target bs w (ev # evs) =
     evictedBy target bs w ev + evicted target bs (step target bs w ev) evs"

text \<open>
  A store for examples: the given capacity and accountant value, no pending
  signal, separate retrieval indexes, and the given entries in every index.
\<close>

definition exampleStore :: "int \<Rightarrow> int \<Rightarrow> nat list \<Rightarrow> nat DB" where
  "exampleStore c g xs =
     \<lparr>capacity = c, gcSize = g, collectGarbageTrigger = False,
      useRetrievalCompositeIndex = False, retrievalCompositeIndex = [],
      retrievalDataIndex = xs, retrievalAccessIndex = xs, pullIndex = xs, gcIndex = xs\<rparr>"

definition noFaults :: faults where
  "noFaults = \<lparr>iterFault = None, writeFault = None\<rparr>"

section \<open>Facts about the collection target\<close>

lemma bitlen_le: "n < 2 ^ b \<Longrightarrow> bitlen n \<le> b"
proof (induction b arbitrary: n)
  case 0
  then show ?case by (simp add: bitlen.simps)
next
  case (Suc b)
  show ?case
  proof (cases "n = 0")
    case True
    then show ?thesis by (simp add: bitlen.simps)
  next
    case False
    from Suc.prems have "n div 2 < 2 ^ b" by simp
    then have "bitlen (n div 2) \<le> b" by (rule Suc.IH)
    with False show ?thesis by (subst bitlen.simps) simp
  qed
qed

lemma bitlen_eq: "2 ^ b \<le> n \<Longrightarrow> n < 2 ^ Suc b \<Longrightarrow> bitlen n = Suc b"
proof (induction b arbitrary: n)
  case 0
  then have "n = 1" by simp
  then show ?case by (simp add: bitlen.simps)
next
  case (Suc b)
  from Suc.prems have "2 ^ b \<le> n div 2" "n div 2 < 2 ^ Suc b" by simp_all
  then have "bitlen (n div 2) = Suc b" by (rule Suc.IH)
  moreover from Suc.prems have "n \<noteq> 0" by auto
  ultimately show ?case by (subst bitlen.simps) simp
qed

lemma round53_small: "n < 2 ^ 53 \<Longrightarrow> round53 n = n"
  by (simp add: round53_def)

lemma round53_upper:
  assumes "n < 2 ^ 103"
  shows "round53 n \<le> n + 2 ^ 49"
proof (cases "n < 2 ^ 53")
  case True
  then show ?thesis by (simp add: round53_small)
next
  case False
  define k where "k = bitlen n - 53"
  define q where "q = n div 2 ^ k"
  define r where "r = n mod 2 ^ k"
  define h :: nat where "h = 2 ^ (k - 1)"
  have k: "k \<le> 50" using bitlen_le [OF assms] by (simp add: k_def)
  have n: "n = q * 2 ^ k + r"
    unfolding q_def r_def by (rule div_mult_mod_eq [symmetric])
  have h: "h \<le> 2 ^ 49"
    unfolding h_def using k by (intro power_increasing) simp_all
  have val: "round53 n = (if h < r \<or> (r = h \<and> odd q) then q + 1 else q) * 2 ^ k"
    using False by (simp add: round53_def Let_def k_def q_def r_def h_def)
  show ?thesis
  proof (cases "h < r \<or> (r = h \<and> odd q)")
    case up: True
    have "k \<noteq> 0"
    proof
      assume "k = 0"
      then have "r = 0" "h = 1" by (simp_all add: r_def h_def)
      with up show False by simp
    qed
    then have "(2::nat) ^ k = 2 * h" by (cases k) (simp_all add: h_def)
    moreover from up have "h \<le> r" by auto
    ultimately have "(q + 1) * 2 ^ k \<le> n + h"
      using n by (simp add: algebra_simps)
    with up h val show ?thesis by simp
  next
    case down: False
    then have "round53 n = q * 2 ^ k" using val by simp
    then show ?thesis using n by simp
  qed
qed

lemma round53_lower:
  assumes "m * 2 ^ 53 \<le> n" and "n < 2 ^ 106"
  shows "m * 2 ^ 53 \<le> round53 n"
proof (cases "n < 2 ^ 53")
  case True
  with assms show ?thesis by (simp add: round53_small)
next
  case False
  define k where "k = bitlen n - 53"
  define q where "q = n div 2 ^ k"
  have k: "k \<le> 53" using bitlen_le [OF assms(2)] by (simp add: k_def)
  have split: "(2::nat) ^ 53 = 2 ^ (53 - k) * 2 ^ k"
    using k by (simp flip: power_add)
  have m: "m * 2 ^ 53 = m * 2 ^ (53 - k) * 2 ^ k"
    by (subst split) (rule mult.assoc [symmetric])
  have "m * 2 ^ (53 - k) * 2 ^ k \<le> n" using assms(1) by (simp only: m)
  then have "(m * 2 ^ (53 - k) * 2 ^ k) div 2 ^ k \<le> n div 2 ^ k" by (rule div_le_mono)
  then have "m * 2 ^ (53 - k) \<le> q" by (simp add: q_def)
  then have "m * 2 ^ (53 - k) * 2 ^ k \<le> q * 2 ^ k" by simp
  then have low: "m * 2 ^ 53 \<le> q * 2 ^ k" by (simp only: m)
  have "q * 2 ^ k \<le> round53 n"
    using False by (simp add: round53_def Let_def k_def q_def)
  with low show ?thesis by simp
qed

lemma gcTarget_exact:
  assumes "0 \<le> capacity db" and "capacity db \<le> 1250999896491804"
  shows "gcTarget db = capacity db * 9 div 10"
proof -
  define c where "c = nat (capacity db)"
  define p where "p = c * gcTargetRatio_significand"
  define n where "n = c * 9 div 10"
  have c: "c \<le> 1250999896491804" and cap: "capacity db = int c"
    using assms by (simp_all add: c_def)
  have x: "round53 c = c" using c by (intro round53_small) simp
  have p10: "10 * p = c * 9 * 2 ^ 53 + 2 * c"
    by (simp add: p_def gcTargetRatio_significand_def)
  have n1: "10 * n \<le> c * 9" and n2: "c * 9 < 10 * n + 10"
    unfolding n_def by presburger+
  have pbig: "p < 2 ^ 103" using c by (simp add: p_def gcTargetRatio_significand_def)
  have "10 * (n * 2 ^ 53) \<le> 10 * p" using n1 p10 by simp
  then have "n * 2 ^ 53 \<le> p" by simp
  then have lo: "n * 2 ^ 53 \<le> round53 p"
    by (rule round53_lower) (use pbig in simp)
  have "10 * (p + 2 ^ 49) < 10 * (Suc n * 2 ^ 53)" using n2 p10 c by simp
  then have "p + 2 ^ 49 < Suc n * 2 ^ 53" by simp
  with round53_upper [OF pbig] have hi: "round53 p < Suc n * 2 ^ 53" by simp
  have "round53 p div 2 ^ 53 = n"
    by (rule div_nat_eqI) (use lo hi in \<open>simp_all add: mult.commute\<close>)
  then have "gcTarget db = sgn (int c) * int n"
    by (simp add: gcTarget_def Let_def cap x p_def)
  also have "\<dots> = int n" by (cases "c = 0") (simp_all add: n_def)
  also have "\<dots> = capacity db * 9 div 10" by (simp add: n_def cap zdiv_int)
  finally show ?thesis .
qed

lemma round53_104:
  assumes "2 ^ 103 \<le> n" and "n < 2 ^ 104"
    and "m = (if 2 ^ 50 < n mod 2 ^ 51 \<or> (n mod 2 ^ 51 = 2 ^ 50 \<and> odd (n div 2 ^ 51))
              then n div 2 ^ 51 + 1 else n div 2 ^ 51) * 2 ^ 51"
  shows "round53 n = m"
proof -
  have "bitlen n = Suc 103" using assms(1) by (rule bitlen_eq) (use assms(2) in simp)
  moreover have "\<not> n < 2 ^ 53" using assms(1) by simp
  ultimately show ?thesis unfolding assms(3) by (simp add: round53_def Let_def)
qed

lemma gcTarget_exact_edge:
  assumes "1250999896491804 < capacity db" and "capacity db < 1250999896491811"
  shows "gcTarget db = capacity db * 9 div 10"
proof -
  have "gcTarget db = capacity db * 9 div 10" if "capacity db = 1250999896491805"
  proof -
    have "round53 10141204801825839965773232311865 = 10141204801825839715573253013504"
      by (rule round53_104) simp_all
    then show ?thesis
      using that by (simp add: gcTarget_def Let_def round53_small gcTargetRatio_significand_def)
  qed
  moreover
  have "gcTarget db = capacity db * 9 div 10" if "capacity db = 1250999896491806"
  proof -
    have "round53 10141204801825848072252561578758 = 10141204801825848722772507754496"
      by (rule round53_104) simp_all
    then show ?thesis
      using that by (simp add: gcTarget_def Let_def round53_small gcTargetRatio_significand_def)
  qed
  moreover
  have "gcTarget db = capacity db * 9 div 10" if "capacity db = 1250999896491807"
  proof -
    have "round53 10141204801825856178731890845651 = 10141204801825855478171948810240"
      by (rule round53_104) simp_all
    then show ?thesis
      using that by (simp add: gcTarget_def Let_def round53_small gcTargetRatio_significand_def)
  qed
  moreover
  have "gcTarget db = capacity db * 9 div 10" if "capacity db = 1250999896491808"
  proof -
    have "round53 10141204801825864285211220112544 = 10141204801825864485371203551232"
      by (rule round53_104) simp_all
    then show ?thesis
      using that by (simp add: gcTarget_def Let_def round53_small gcTargetRatio_significand_def)
  qed
  moreover
  have "gcTarget db = capacity db * 9 div 10" if "capacity db = 1250999896491809"
  proof -
    have "round53 10141204801825872391690549379437 = 10141204801825873492570458292224"
      by (rule round53_104) simp_all
    then show ?thesis
      using that by (simp add: gcTarget_def Let_def round53_small gcTargetRatio_significand_def)
  qed
  moreover
  have "gcTarget db = capacity db * 9 div 10" if "capacity db = 1250999896491810"
  proof -
    have "round53 10141204801825880498169878646330 = 10141204801825880247969899347968"
      by (rule round53_104) simp_all
    then show ?thesis
      using that by (simp add: gcTarget_def Let_def round53_small gcTargetRatio_significand_def)
  qed
  moreover
  have "capacity db = 1250999896491805 \<or> capacity db = 1250999896491806 \<or>
     capacity db = 1250999896491807 \<or> capacity db = 1250999896491808 \<or>
     capacity db = 1250999896491809 \<or> capacity db = 1250999896491810"
    using assms by arith
  ultimately show ?thesis by blast
qed

section \<open>Facts about the signal, the accountant and the visitor\<close>

lemma deleteEntry_keeps:
  "capacity (deleteEntry d db) = capacity db"
  "gcSize (deleteEntry d db) = gcSize db"
  "collectGarbageTrigger (deleteEntry d db) = collectGarbageTrigger db"
  "useRetrievalCompositeIndex (deleteEntry d db) = useRetrievalCompositeIndex db"
  by (cases d; cases "fst d"; simp)+

lemma fold_deleteEntry_keeps:
  "capacity (fold deleteEntry b db) = capacity db"
  "gcSize (fold deleteEntry b db) = gcSize db"
  "collectGarbageTrigger (fold deleteEntry b db) = collectGarbageTrigger db"
  "useRetrievalCompositeIndex (fold deleteEntry b db) = useRetrievalCompositeIndex db"
  by (induction b arbitrary: db; simp add: deleteEntry_keeps)+

lemma trySend_fields:
  "collectGarbageTrigger (trySend db)"
  "gcSize (trySend db) = gcSize db"
  "capacity (trySend db) = capacity db"
  by (simp_all add: trySend_def)

lemma trySend_idem: "trySend (trySend db) = trySend db"
  by (simp add: trySend_def)

lemma incGCSize_fields:
  "gcSize (incGCSize db n) = gcSize db + n"
  "capacity (incGCSize db n) = capacity db"
  "collectGarbageTrigger (incGCSize db n) = (collectGarbageTrigger db \<or> capacity db \<le> gcSize db + n)"
  by (auto simp add: incGCSize_def Let_def trySend_def)

lemma gcVisit_stop:
  "gcSize db - collectedCount r \<le> target \<Longrightarrow> gcVisit target bs db r item = (True, None, r)"
  by (simp add: gcVisit_def)

lemma gcVisit_collect:
  "\<not> gcSize db - collectedCount r \<le> target \<Longrightarrow>
   gcVisit target bs db r item =
     (bs \<le> collectedCount r + 1, None,
      r\<lparr>batch := batch r @ deletions db item,
        collectedCount := collectedCount r + 1,
        triggerNextIteration := (bs \<le> collectedCount r + 1 \<or> triggerNextIteration r)\<rparr>)"
  by (simp add: gcVisit_def deletions_def DeleteInBatch_def Let_def)

lemma IterateAll_collect:
  "collectedCount r + int (length xs) \<le> gcSize db - target \<Longrightarrow>
   collectedCount r + int (length xs) < bs \<Longrightarrow>
   IterateAll (gcVisit target bs db) (map Inr xs @ rest) r =
   IterateAll (gcVisit target bs db) rest
     (r\<lparr>batch := batch r @ concat (map (deletions db) xs),
        collectedCount := collectedCount r + int (length xs)\<rparr>)"
proof (induction xs arbitrary: r)
  case Nil
  then show ?case by simp
next
  case (Cons x xs)
  have go: "\<not> gcSize db - collectedCount r \<le> target" using Cons.prems by simp
  have nb: "\<not> bs \<le> collectedCount r + 1" using Cons.prems by simp
  let ?r = "r\<lparr>batch := batch r @ deletions db x, collectedCount := collectedCount r + 1,
        triggerNextIteration := (bs \<le> collectedCount r + 1 \<or> triggerNextIteration r)\<rparr>"
  have "IterateAll (gcVisit target bs db) (map Inr (x # xs) @ rest) r =
        IterateAll (gcVisit target bs db) (map Inr xs @ rest) ?r"
    using nb by (simp add: gcVisit_collect [OF go])
  also have "\<dots> = IterateAll (gcVisit target bs db) rest
     (?r\<lparr>batch := batch ?r @ concat (map (deletions db) xs),
        collectedCount := collectedCount ?r + int (length xs)\<rparr>)"
    by (rule Cons.IH) (use Cons.prems in simp_all)
  finally show ?case using nb by (simp add: add.assoc)
qed

lemma IterateAll_shape:
  assumes "IterateAll (gcVisit target bs db) (map Inr xs @ rest) r = (err, r')"
    and "rest = [] \<or> rest = [Inl e]"
  shows "\<exists>n\<le>length xs.
           collectedCount r' = collectedCount r + int n \<and>
           batch r' = batch r @ concat (map (deletions db) (take n xs)) \<and>
           (n = 0 \<or> target \<le> gcSize db - collectedCount r') \<and>
           (err = None \<or> (err = Some e \<and> rest = [Inl e] \<and> n = length xs))"
  using assms
proof (induction xs arbitrary: r)
  case Nil
  then show ?case by auto
next
  case (Cons x xs)
  show ?case
  proof (cases "gcSize db - collectedCount r \<le> target")
    case True
    with Cons.prems(1) have "err = None" "r' = r" by (simp_all add: gcVisit_stop)
    then show ?thesis by simp
  next
    case False
    let ?r = "r\<lparr>batch := batch r @ deletions db x,
        collectedCount := collectedCount r + 1,
        triggerNextIteration := (bs \<le> collectedCount r + 1 \<or> triggerNextIteration r)\<rparr>"
    show ?thesis
    proof (cases "bs \<le> collectedCount r + 1")
      case True
      with Cons.prems(1) False have "err = None" "r' = ?r"
        by (simp_all add: gcVisit_collect)
      with False have "1 \<le> length (x # xs) \<and>
           collectedCount r' = collectedCount r + int 1 \<and>
           batch r' = batch r @ concat (map (deletions db) (take 1 (x # xs))) \<and>
           (1 = (0::nat) \<or> target \<le> gcSize db - collectedCount r') \<and>
           (err = None \<or> (err = Some e \<and> rest = [Inl e] \<and> 1 = length (x # xs)))"
        by simp
      then show ?thesis by blast
    next
      case nb: False
      with Cons.prems(1) False
      have "IterateAll (gcVisit target bs db) (map Inr xs @ rest) ?r = (err, r')"
        by (simp add: gcVisit_collect)
      from Cons.IH [OF this Cons.prems(2)]
      obtain n where n: "n \<le> length xs"
        "collectedCount r' = collectedCount ?r + int n"
        "batch r' = batch ?r @ concat (map (deletions db) (take n xs))"
        "n = 0 \<or> target \<le> gcSize db - collectedCount r'"
        "err = None \<or> (err = Some e \<and> rest = [Inl e] \<and> n = length xs)"
        by blast
      have "target \<le> gcSize db - collectedCount r'"
        using n(2,4) False by auto
      with n have "Suc n \<le> length (x # xs) \<and>
           collectedCount r' = collectedCount r + int (Suc n) \<and>
           batch r' = batch r @ concat (map (deletions db) (take (Suc n) (x # xs))) \<and>
           (Suc n = 0 \<or> target \<le> gcSize db - collectedCount r') \<and>
           (err = None \<or> (err = Some e \<and> rest = [Inl e] \<and> Suc n = length (x # xs)))"
        by auto
      then show ?thesis by blast
    qed
  qed
qed

lemma IterateAll_cap:
  assumes "IterateAll (gcVisit target bs db) es r = (err, r')"
    and "collectedCount r < bs" and "\<not> triggerNextIteration r"
  shows "collectedCount r' \<le> bs \<and> (triggerNextIteration r' \<longleftrightarrow> bs \<le> collectedCount r')"
  using assms
proof (induction es arbitrary: r)
  case Nil
  then show ?case by auto
next
  case (Cons a es)
  show ?case
  proof (cases a)
    case (Inl e)
    with Cons.prems show ?thesis by auto
  next
    case (Inr x)
    show ?thesis
    proof (cases "gcSize db - collectedCount r \<le> target")
      case True
      with Cons.prems Inr show ?thesis by (auto simp add: gcVisit_stop)
    next
      case False
      show ?thesis
      proof (cases "bs \<le> collectedCount r + 1")
        case True
        with Cons.prems Inr False show ?thesis by (auto simp add: gcVisit_collect)
      next
        case nb: False
        let ?r = "r\<lparr>batch := batch r @ deletions db x,
          collectedCount := collectedCount r + 1,
          triggerNextIteration := (bs \<le> collectedCount r + 1 \<or> triggerNextIteration r)\<rparr>"
        from Cons.prems(1) Inr False nb
        have "IterateAll (gcVisit target bs db) es ?r = (err, r')"
          by (simp add: gcVisit_collect)
        then show ?thesis
          by (rule Cons.IH) (use nb Cons.prems in simp_all)
      qed
    qed
  qed
qed

section \<open>Facts about one pass\<close>

lemma pass_write_failed:
  assumes "gcIterate target bs f db = (err, r)" and "writeFault f = Some e"
  shows "collectGarbage_pass target bs f db =
     \<lparr>store_after = db,
      logged = (case err of Some e' \<Rightarrow> [(''localstore collect garbage'', e')] | None \<Rightarrow> [])
               @ [(''localstore collect garbage write batch'', e)],
      iterErr = err, run = r, writeErr = Some e, hooked = collectedCount r\<rparr>"
  using assms by (simp add: collectGarbage_pass_def WriteBatch_def)

lemma pass_written:
  assumes "gcIterate target bs f db = (err, r)" and "writeFault f = None"
  shows "collectGarbage_pass target bs f db =
     \<lparr>store_after =
        (if triggerNextIteration r
         then trySend (incGCSize (fold deleteEntry (batch r) db) (- collectedCount r))
         else incGCSize (fold deleteEntry (batch r) db) (- collectedCount r)),
      logged = (case err of Some e' \<Rightarrow> [(''localstore collect garbage'', e')] | None \<Rightarrow> []),
      iterErr = err, run = r, writeErr = None, hooked = collectedCount r\<rparr>"
  using assms by (simp add: collectGarbage_pass_def WriteBatch_def Let_def)

lemma pass_written_fields:
  assumes "gcIterate target bs f db = (err, r)" and "writeFault f = None"
  shows "gcSize (store_after (collectGarbage_pass target bs f db)) = gcSize db - collectedCount r"
    and "capacity (store_after (collectGarbage_pass target bs f db)) = capacity db"
    and "collectGarbageTrigger (store_after (collectGarbage_pass target bs f db)) =
           (collectGarbageTrigger db \<or> capacity db \<le> gcSize db - collectedCount r
            \<or> triggerNextIteration r)"
  by (simp_all add: pass_written [OF assms] trySend_fields incGCSize_fields fold_deleteEntry_keeps)

lemma pass_fields:
  "run (collectGarbage_pass target bs f db) = snd (gcIterate target bs f db)"
  "iterErr (collectGarbage_pass target bs f db) = fst (gcIterate target bs f db)"
  "writeErr (collectGarbage_pass target bs f db) = writeFault f"
  "hooked (collectGarbage_pass target bs f db) = collectedCount (snd (gcIterate target bs f db))"
  by (cases "gcIterate target bs f db"; cases "writeFault f";
      simp add: pass_write_failed pass_written)+

lemma entries_shape:
  "\<exists>ys rest. entries fault xs = map Inr ys @ rest \<and> (rest = [] \<or> (\<exists>e. rest = [Inl e]))"
  by (cases fault) (auto simp add: entries_def)

lemma gcIterate_bounds:
  assumes "gcIterate target bs f db = (err, r)"
  shows "0 \<le> collectedCount r"
    and "collectedCount r = 0 \<or> target \<le> gcSize db - collectedCount r"
proof -
  obtain ys rest where sh: "entries (iterFault f) (gcIndex db) = map Inr ys @ rest"
    and "rest = [] \<or> (\<exists>e. rest = [Inl e])"
    using entries_shape by blast
  then obtain e where rest: "rest = [] \<or> rest = [Inl e]" by blast
  from assms have "IterateAll (gcVisit target bs db) (map Inr ys @ rest)
      \<lparr>batch = [], collectedCount = 0, triggerNextIteration = False\<rparr> = (err, r)"
    by (simp add: gcIterate_def sh)
  from IterateAll_shape [OF this rest]
  obtain n where "collectedCount r = int n" "n = 0 \<or> target \<le> gcSize db - collectedCount r"
    by auto
  then show "0 \<le> collectedCount r"
    and "collectedCount r = 0 \<or> target \<le> gcSize db - collectedCount r"
    by auto
qed

lemma gcIterate_cap:
  assumes "gcIterate target bs f db = (err, r)" and "1 \<le> bs"
  shows "collectedCount r \<le> bs" and "triggerNextIteration r \<longleftrightarrow> bs \<le> collectedCount r"
proof -
  from assms(1) have "IterateAll (gcVisit target bs db) (entries (iterFault f) (gcIndex db))
      \<lparr>batch = [], collectedCount = 0, triggerNextIteration = False\<rparr> = (err, r)"
    by (simp add: gcIterate_def)
  from IterateAll_cap [OF this] assms(2)
  show "collectedCount r \<le> bs" and "triggerNextIteration r \<longleftrightarrow> bs \<le> collectedCount r"
    by simp_all
qed

lemma tryRecv_Some:
  "tryRecv db0 = Some db \<Longrightarrow> db = db0\<lparr>collectGarbageTrigger := False\<rparr>"
  by (simp add: tryRecv_def split: if_splits)

lemma foldl_incGCSize_fields:
  "gcSize (foldl incGCSize db cs) = gcSize db + sum_list cs"
  "capacity (foldl incGCSize db cs) = capacity db"
  by (induction cs arbitrary: db; simp add: incGCSize_fields)+

lemma results_capacity:
  "collectGarbageTrigger (foldl incGCSize db cs) =
     (collectGarbageTrigger db \<or> (\<exists>v\<in>set (results db cs). capacity db \<le> v))"
  by (induction cs arbitrary: db) (auto simp add: incGCSize_fields)

lemma incGCSize_eq:
  "incGCSize db c =
     db\<lparr>gcSize := gcSize db + c,
        collectGarbageTrigger := (collectGarbageTrigger db \<or> capacity db \<le> gcSize db + c)\<rparr>"
  by (simp add: incGCSize_def trySend_def Let_def)

lemma results_last:
  "cs \<noteq> [] \<Longrightarrow> gcSize db + sum_list cs \<in> set (results db cs)"
proof (induction cs arbitrary: db)
  case Nil
  then show ?case by simp
next
  case (Cons c cs)
  show ?case
  proof (cases "cs = []")
    case True
    then show ?thesis by simp
  next
    case False
    from Cons.IH [OF this, of "incGCSize db c"] show ?thesis
      by (simp add: incGCSize_fields add.assoc)
  qed
qed

lemma foldl_step_IncGCSize:
  "foldl (step target bs) w (map IncGCSize cs) = w\<lparr>store := foldl incGCSize (store w) cs\<rparr>"
  by (induction cs arbitrary: w) simp_all

lemma tryRecv_pending:
  "collectGarbageTrigger db \<Longrightarrow> tryRecv db = Some (db\<lparr>collectGarbageTrigger := False\<rparr>)"
  by (simp add: tryRecv_def)

lemma foldl_incGCSize_coalesce:
  assumes "cs \<noteq> []" and "\<forall>v\<in>set (results db cs). capacity db \<le> v"
  shows "foldl incGCSize db cs = incGCSize db (sum_list cs)"
  using assms
proof (induction cs arbitrary: db)
  case Nil
  then show ?case by simp
next
  case (Cons c cs)
  show ?case
  proof (cases "cs = []")
    case True
    then show ?thesis by simp
  next
    case False
    from Cons.prems(2) have first: "capacity db \<le> gcSize db + c"
      and later: "\<forall>v\<in>set (results (incGCSize db c) cs). capacity (incGCSize db c) \<le> v"
      by (simp_all add: incGCSize_fields)
    from results_last [OF False, of "incGCSize db c"] later
    have total: "capacity db \<le> gcSize db + c + sum_list cs"
      by (auto simp add: incGCSize_fields)
    have "foldl incGCSize db (c # cs) = incGCSize (incGCSize db c) (sum_list cs)"
      using Cons.IH [OF False later] by simp
    also have "\<dots> = incGCSize db (sum_list (c # cs))"
      using first total by (simp add: incGCSize_eq add.assoc)
    finally show ?thesis .
  qed
qed

lemma gcIterate_exact:
  assumes nofault: "iterFault f = None" and bs: "1 \<le> bs"
    and enough: "min bs (gcSize db - target) \<le> int (length (gcIndex db))"
  shows "gcIterate target bs f db =
     (None,
      \<lparr>batch = concat (map (deletions db) (take (nat (min bs (gcSize db - target))) (gcIndex db))),
       collectedCount = max 0 (min bs (gcSize db - target)),
       triggerNextIteration = (bs \<le> gcSize db - target)\<rparr>)"
proof -
  define xs where "xs = gcIndex db"
  define need where "need = gcSize db - target"
  let ?V = "gcVisit target bs db"
  let ?r0 = "\<lparr>batch = [], collectedCount = 0, triggerNextIteration = False\<rparr> :: 'a gcRun"
  have it: "gcIterate target bs f db = IterateAll ?V (map Inr xs) ?r0"
    by (simp add: gcIterate_def entries_def nofault xs_def)
  consider (below) "need \<le> 0" | (reach) "0 < need" "need < bs" | (cap) "bs \<le> need"
    by linarith
  then have "IterateAll ?V (map Inr xs) ?r0 =
     (None,
      \<lparr>batch = concat (map (deletions db) (take (nat (min bs need)) xs)),
       collectedCount = max 0 (min bs need),
       triggerNextIteration = (bs \<le> need)\<rparr>)"
  proof cases
    case below
    then have stop: "gcSize db - collectedCount ?r0 \<le> target" by (simp add: need_def)
    have "IterateAll ?V (map Inr xs) ?r0 = (None, ?r0)"
      by (cases xs) (simp_all add: gcVisit_stop [OF stop])
    with below bs show ?thesis by simp
  next
    case reach
    define m where "m = nat need"
    have m: "int m = need" "m \<le> length xs"
      using reach enough by (simp_all add: m_def need_def xs_def)
    define r1 where "r1 = ?r0\<lparr>batch := batch ?r0 @ concat (map (deletions db) (take m xs)),
        collectedCount := collectedCount ?r0 + int (length (take m xs))\<rparr>"
    have len: "int (length (take m xs)) = need" using m by simp
    have r1: "r1 = \<lparr>batch = concat (map (deletions db) (take m xs)), collectedCount = need,
        triggerNextIteration = False\<rparr>"
      using len by (simp add: r1_def)
    have "IterateAll ?V (map Inr (take m xs) @ map Inr (drop m xs)) ?r0 =
          IterateAll ?V (map Inr (drop m xs)) r1"
      unfolding r1_def
      by (rule IterateAll_collect) (use len reach in \<open>simp_all add: need_def\<close>)
    moreover have "map Inr (take m xs) @ map Inr (drop m xs) = (map Inr xs :: (error + 'a) list)"
      by (simp flip: map_append)
    moreover have "IterateAll ?V (map Inr (drop m xs)) r1 = (None, r1)"
    proof -
      have stop: "gcSize db - collectedCount r1 \<le> target" by (simp add: r1 need_def)
      show ?thesis by (cases "drop m xs") (simp_all add: gcVisit_stop [OF stop])
    qed
    ultimately have "IterateAll ?V (map Inr xs) ?r0 = (None, r1)" by simp
    with reach show ?thesis by (simp add: r1 m_def)
  next
    case cap
    define m where "m = nat (bs - 1)"
    have m: "int m = bs - 1" "m < length xs"
      using cap bs enough by (simp_all add: m_def need_def xs_def)
    define r1 where "r1 = ?r0\<lparr>batch := batch ?r0 @ concat (map (deletions db) (take m xs)),
        collectedCount := collectedCount ?r0 + int (length (take m xs))\<rparr>"
    have len: "int (length (take m xs)) = bs - 1" using m by simp
    have r1: "r1 = \<lparr>batch = concat (map (deletions db) (take m xs)), collectedCount = bs - 1,
        triggerNextIteration = False\<rparr>"
      using len by (simp add: r1_def)
    have split: "(map Inr xs :: (error + 'a) list) =
        map Inr (take m xs) @ (Inr (xs ! m) # map Inr (drop (Suc m) xs))"
      using m(2) by (simp flip: map_append list.map(2) add: Cons_nth_drop_Suc)
    have "IterateAll ?V (map Inr (take m xs) @ (Inr (xs ! m) # map Inr (drop (Suc m) xs))) ?r0 =
          IterateAll ?V (Inr (xs ! m) # map Inr (drop (Suc m) xs)) r1"
      unfolding r1_def
      by (rule IterateAll_collect) (use len cap in \<open>simp_all add: need_def\<close>)
    moreover have "IterateAll ?V (Inr (xs ! m) # map Inr (drop (Suc m) xs)) r1 =
        (None, \<lparr>batch = concat (map (deletions db) (take m xs)) @ deletions db (xs ! m),
                collectedCount = bs, triggerNextIteration = True\<rparr>)"
    proof -
      have go: "\<not> gcSize db - collectedCount r1 \<le> target"
        using cap by (simp add: r1 need_def)
      show ?thesis by (simp add: gcVisit_collect [OF go]) (simp add: r1)
    qed
    moreover have "take (nat bs) xs = take m xs @ [xs ! m]"
    proof -
      have "nat bs = Suc m" using bs by (simp add: m_def)
      then show ?thesis using m(2) by (simp add: take_Suc_conv_app_nth)
    qed
    ultimately show ?thesis using cap bs by (simp add: split)
  qed
  then show ?thesis by (simp add: it xs_def need_def)
qed

lemma IterateAll_error_trigger:
  "IterateAll (gcVisit target bs db) es r = (Some e, r') \<Longrightarrow>
   triggerNextIteration r' = triggerNextIteration r"
proof (induction es arbitrary: r)
  case Nil
  then show ?case by simp
next
  case (Cons a es)
  show ?case
  proof (cases a)
    case (Inl e')
    with Cons.prems show ?thesis by simp
  next
    case (Inr x)
    show ?thesis
    proof (cases "gcSize db - collectedCount r \<le> target")
      case True
      with Cons.prems Inr show ?thesis by (simp add: gcVisit_stop)
    next
      case False
      show ?thesis
      proof (cases "bs \<le> collectedCount r + 1")
        case True
        with Cons.prems Inr False show ?thesis by (simp add: gcVisit_collect)
      next
        case nb: False
        let ?r = "r\<lparr>batch := batch r @ deletions db x,
          collectedCount := collectedCount r + 1,
          triggerNextIteration := (bs \<le> collectedCount r + 1 \<or> triggerNextIteration r)\<rparr>"
        from Cons.prems Inr False nb
        have "IterateAll (gcVisit target bs db) es ?r = (Some e, r')"
          by (simp add: gcVisit_collect)
        from Cons.IH [OF this] nb show ?thesis by simp
      qed
    qed
  qed
qed

lemma gcIterate_error:
  assumes "gcIterate target bs f db = (Some e, r)"
  shows "\<exists>k. iterFault f = Some (k, e) \<and>
           r = \<lparr>batch = concat (map (deletions db) (take k (gcIndex db))),
                collectedCount = int (length (take k (gcIndex db))),
                triggerNextIteration = False\<rparr>"
proof (cases "iterFault f")
  case None
  with assms have "IterateAll (gcVisit target bs db) (map Inr (gcIndex db) @ [])
      \<lparr>batch = [], collectedCount = 0, triggerNextIteration = False\<rparr> = (Some e, r)"
    by (simp add: gcIterate_def entries_def)
  from IterateAll_shape [OF this, of undefined] show ?thesis by simp
next
  case (Some ke)
  obtain k e' where ke: "ke = (k, e')" by (cases ke)
  define ys where "ys = take k (gcIndex db)"
  let ?r0 = "\<lparr>batch = [], collectedCount = 0, triggerNextIteration = False\<rparr> :: 'a gcRun"
  from assms Some ke
  have it: "IterateAll (gcVisit target bs db) (map Inr ys @ [Inl e']) ?r0 = (Some e, r)"
    by (simp add: gcIterate_def entries_def ys_def)
  from IterateAll_shape [OF it, of e']
  obtain n where "collectedCount r = collectedCount ?r0 + int n"
    and "batch r = batch ?r0 @ concat (map (deletions db) (take n ys))"
    and "e = e'" and "n = length ys"
    by auto
  then have "e = e'" and "collectedCount r = int (length ys)"
    and "batch r = concat (map (deletions db) ys)"
    by simp_all
  moreover from IterateAll_error_trigger [OF it] have "\<not> triggerNextIteration r" by simp
  ultimately show ?thesis using Some ke by (simp add: ys_def)
qed

lemma gcTarget_nonneg: "0 \<le> capacity db \<Longrightarrow> 0 \<le> gcTarget db"
  by (simp add: gcTarget_def Let_def sgn_if)

lemma putEntry_keeps:
  "gcSize (putEntry ix x db) = gcSize db"
  "capacity (putEntry ix x db) = capacity db"
  "collectGarbageTrigger (putEntry ix x db) = collectGarbageTrigger db"
  by (cases ix; simp)+

lemma pass_balance:
  assumes "0 \<le> target" and "0 \<le> gcSize db"
  shows "gcSize (store_after (collectGarbage_pass target bs f db)) =
           gcSize db - (if writeErr (collectGarbage_pass target bs f db) = None
                        then collectedCount (run (collectGarbage_pass target bs f db)) else 0)"
    and "0 \<le> gcSize (store_after (collectGarbage_pass target bs f db))"
proof -
  obtain err r where it: "gcIterate target bs f db = (err, r)"
    by (cases "gcIterate target bs f db")
  have eq: "gcSize (store_after (collectGarbage_pass target bs f db)) =
           gcSize db - (if writeErr (collectGarbage_pass target bs f db) = None
                        then collectedCount (run (collectGarbage_pass target bs f db)) else 0)"
  proof (cases "writeFault f")
    case None
    with pass_written_fields(1) [OF it None] show ?thesis by (simp add: pass_fields it)
  next
    case (Some e)
    with pass_write_failed [OF it Some] show ?thesis by simp
  qed
  show "gcSize (store_after (collectGarbage_pass target bs f db)) =
           gcSize db - (if writeErr (collectGarbage_pass target bs f db) = None
                        then collectedCount (run (collectGarbage_pass target bs f db)) else 0)"
    by (rule eq)
  from gcIterate_bounds [OF it] assms
  have "0 \<le> gcSize db - collectedCount r" by auto
  with assms(2) show "0 \<le> gcSize (store_after (collectGarbage_pass target bs f db))"
    unfolding eq by (simp add: pass_fields it)
qed

lemma step_balance:
  assumes "0 \<le> target" and "0 \<le> gcSize (store w)" and "admissions [ev]"
  shows "gcSize (store (step target bs w ev)) =
           gcSize (store w) + admitted [ev] - evictedBy target bs w ev"
    and "0 \<le> gcSize (store (step target bs w ev))"
proof -
  have "gcSize (store (step target bs w ev)) =
           gcSize (store w) + admitted [ev] - evictedBy target bs w ev \<and>
        0 \<le> gcSize (store (step target bs w ev))"
  proof (cases ev)
    case (IncGCSize n)
    with assms show ?thesis by (simp add: incGCSize_fields)
  next
    case (IndexPut ix x)
    with assms show ?thesis by (simp add: putEntry_keeps)
  next
    case Shutdown
    with assms show ?thesis by simp
  next
    case (Trigger f)
    show ?thesis
    proof (cases "collector w = Closed \<or> tryRecv (store w) = None")
      case True
      with assms Trigger show ?thesis by auto
    next
      case False
      then obtain db where db: "tryRecv (store w) = Some db" and live: "collector w \<noteq> Closed"
        by auto
      from tryRecv_Some [OF db] have g: "gcSize db = gcSize (store w)" by simp
      with assms have "0 \<le> gcSize db" by simp
      from pass_balance [OF assms(1) this, of bs f] Trigger db live g
      show ?thesis by (simp add: Let_def)
    qed
  qed
  then show "gcSize (store (step target bs w ev)) =
           gcSize (store w) + admitted [ev] - evictedBy target bs w ev"
    and "0 \<le> gcSize (store (step target bs w ev))"
    by simp_all
qed

lemma run_balance:
  assumes "0 \<le> target" and "0 \<le> gcSize (store w)" and "admissions evs"
  shows "gcSize (store (foldl (step target bs) w evs)) =
           gcSize (store w) + admitted evs - evicted target bs w evs \<and>
         0 \<le> gcSize (store (foldl (step target bs) w evs))"
  using assms(2,3)
proof (induction evs arbitrary: w)
  case Nil
  then show ?case by simp
next
  case (Cons ev evs)
  have one: "admissions [ev]" and rest: "admissions evs"
    using Cons.prems(2) by (cases ev; simp)+
  have adm: "admitted (ev # evs) = admitted [ev] + admitted evs"
    by (cases ev) simp_all
  note s = step_balance [OF assms(1) Cons.prems(1) one, of bs]
  from Cons.IH [OF s(2) rest] s(1) adm show ?case by simp
qed

lemma evictedBy_nonneg: "0 \<le> evictedBy target bs w ev"
proof (cases ev)
  case (Trigger f)
  have "0 \<le> collectedCount (run (collectGarbage_pass target bs f db))" for db :: "'a DB"
    using gcIterate_bounds(1) [of target bs f db] 
    by (cases "gcIterate target bs f db") (simp add: pass_fields)
  with Trigger show ?thesis by (simp add: Let_def split: option.splits)
qed simp_all

lemma evicted_nonneg: "0 \<le> evicted target bs w evs"
  by (induction evs arbitrary: w) (simp_all add: evictedBy_nonneg)

lemma admissions_take: "admissions evs \<Longrightarrow> admissions (take n evs)"
proof (induction evs arbitrary: n)
  case Nil
  then show ?case by simp
next
  case (Cons ev evs)
  then show ?case by (cases n; cases ev) simp_all
qed

lemma admitted_take: "admissions evs \<Longrightarrow> admitted (take n evs) \<le> admitted evs"
proof (induction evs arbitrary: n)
  case Nil
  then show ?case by simp
next
  case (Cons ev evs)
  have nonneg: "0 \<le> admitted es" if "admissions es" for es :: "'a event list"
    using that
  proof (induction es)
    case Nil
    then show ?case by simp
  next
    case (Cons e es)
    then show ?case by (cases e) simp_all
  qed
  show ?case
  proof (cases n)
    case 0
    with nonneg [OF Cons.prems] show ?thesis by simp
  next
    case (Suc m)
    with Cons.IH [of m] Cons.prems show ?thesis by (cases ev) simp_all
  qed
qed

lemma foldl_step_Trigger_empty:
  "\<not> collectGarbageTrigger (store w) \<Longrightarrow> foldl (step target bs) w (map Trigger fs) = w"
  by (induction fs) (simp_all add: tryRecv_def)

section \<open>The claims\<close>

text \<open>
  Claim C1. When \<^verbatim>\<open>WriteBatch\<close> returns an error at the end of a pass, the pass
  leaves the whole store as it found it: the accountant \<open>gcSize\<close> keeps its value
  and no index loses an entry. The error is the last line logged, and the loop
  continues with that store, having only logged and called the test hook.
\<close>

theorem commit_failure_keeps_accountant:
  assumes "writeErr (collectGarbage_pass target bs f db) = Some e"
  shows "gcSize (store_after (collectGarbage_pass target bs f db)) = gcSize db \<and>
         store_after (collectGarbage_pass target bs f db) = db \<and>
         last (logged (collectGarbage_pass target bs f db)) =
           (''localstore collect garbage write batch'', e) \<and>
         (collector w = Idle \<and> tryRecv (store w) = Some db \<longrightarrow>
          step target bs w (Trigger f) =
            w\<lparr>store := db,
              logs := logs w @ logged (collectGarbage_pass target bs f db),
              hookCalls := hookCalls w @ [collectedCount (run (collectGarbage_pass target bs f db))]\<rparr>)"
proof -
  obtain err r where it: "gcIterate target bs f db = (err, r)"
    by (cases "gcIterate target bs f db")
  from assms have "writeFault f = Some e" by (simp add: pass_fields)
  from pass_write_failed [OF it this] show ?thesis by simp
qed

text \<open>A pass that queues the deletions of two entries and whose write fails.\<close>

theorem commit_failure_keeps_accountant_witness:
  "writeErr (collectGarbage_pass 9 2 \<lparr>iterFault = None, writeFault = Some ''disk full''\<rparr>
      (exampleStore 10 12 [1, 2, 3])) = Some ''disk full'' \<and>
   store_after (collectGarbage_pass 9 2 \<lparr>iterFault = None, writeFault = Some ''disk full''\<rparr>
      (exampleStore 10 12 [1, 2, 3])) = exampleStore 10 12 [1, 2, 3] \<and>
   collectedCount (run (collectGarbage_pass 9 2 \<lparr>iterFault = None, writeFault = Some ''disk full''\<rparr>
      (exampleStore 10 12 [1, 2, 3]))) = 2"
proof -
  have w: "writeErr (collectGarbage_pass 9 2 \<lparr>iterFault = None, writeFault = Some ''disk full''\<rparr>
      (exampleStore 10 12 [1, 2, 3])) = Some ''disk full''"
    by (simp add: pass_fields)
  have c: "collectedCount (run (collectGarbage_pass 9 2
      \<lparr>iterFault = None, writeFault = Some ''disk full''\<rparr> (exampleStore 10 12 [1, 2, 3]))) = 2"
    by (simp add: pass_fields gcIterate_def entries_def gcVisit_def DeleteInBatch_def
        exampleStore_def Let_def)
  from commit_failure_keeps_accountant [OF w] w c show ?thesis by simp
qed

text \<open>
  Claim C2, as stated, fails: a pass whose iterator fails after three entries, or
  whose index runs out of entries, writes its batch and leaves the accountant
  above the target without having collected \<open>gcBatchSize\<close> entries. Here the
  capacity is 20, the target 18, the accountant 22, the index holds 22 entries
  and the iterator fails after three: the accountant ends at 19, above the target.
\<close>

theorem pass_above_target_counterexample:
  "writeErr (collectGarbage_pass (gcTarget (exampleStore 20 22 [10..<32]))
      gcBatchSize \<lparr>iterFault = Some (3, ''read error''), writeFault = None\<rparr>
      (exampleStore 20 22 [10..<32])) = None \<and>
   \<not> (gcSize (store_after (collectGarbage_pass (gcTarget (exampleStore 20 22 [10..<32]))
          gcBatchSize \<lparr>iterFault = Some (3, ''read error''), writeFault = None\<rparr>
          (exampleStore 20 22 [10..<32])))
        \<le> gcTarget (exampleStore 20 22 [10..<32]) \<or>
       (collectedCount (run (collectGarbage_pass (gcTarget (exampleStore 20 22 [10..<32]))
          gcBatchSize \<lparr>iterFault = Some (3, ''read error''), writeFault = None\<rparr>
          (exampleStore 20 22 [10..<32]))) = gcBatchSize \<and>
        collectGarbageTrigger (store_after (collectGarbage_pass (gcTarget (exampleStore 20 22 [10..<32]))
          gcBatchSize \<lparr>iterFault = Some (3, ''read error''), writeFault = None\<rparr>
          (exampleStore 20 22 [10..<32])))))"
proof -
  define db where "db = exampleStore 20 22 [10..<32]"
  define f where "f = \<lparr>iterFault = Some (3, ''read error''), writeFault = None\<rparr>"
  have t: "gcTarget db = 18"
    using gcTarget_exact [of db] by (simp add: db_def exampleStore_def)
  have it: "gcIterate 18 gcBatchSize f db =
      (Some ''read error'',
       \<lparr>batch = concat (map (deletions db) [10, 11, 12]), collectedCount = 3,
        triggerNextIteration = False\<rparr>)"
    by (simp add: gcIterate_def entries_def gcVisit_def DeleteInBatch_def deletions_def
        db_def f_def exampleStore_def gcBatchSize_def Let_def)
  have w: "writeFault f = None" by (simp add: f_def)
  have g: "gcSize db = 22" by (simp add: db_def exampleStore_def)
  have "gcSize (store_after (collectGarbage_pass 18 gcBatchSize f db)) = 19"
    using pass_written_fields(1) [OF it w] by (simp add: g)
  moreover have "collectedCount (run (collectGarbage_pass 18 gcBatchSize f db)) = 3"
    by (simp add: pass_fields it)
  moreover have "writeErr (collectGarbage_pass 18 gcBatchSize f db) = None"
    by (simp add: pass_fields w)
  ultimately have "writeErr (collectGarbage_pass (gcTarget db) gcBatchSize f db) = None \<and>
   \<not> (gcSize (store_after (collectGarbage_pass (gcTarget db) gcBatchSize f db)) \<le> gcTarget db \<or>
       (collectedCount (run (collectGarbage_pass (gcTarget db) gcBatchSize f db)) = gcBatchSize \<and>
        collectGarbageTrigger (store_after (collectGarbage_pass (gcTarget db) gcBatchSize f db))))"
    unfolding t by (simp add: gcBatchSize_def)
  then show ?thesis unfolding db_def f_def .
qed

text \<open>
  Claim C2, amended. After a pass whose write succeeds, whose iterator does not
  fail and whose index holds at least \<open>min bs (gcSize - target)\<close> entries, with
  a batch size of at least 1: the accountant is at most the target
  \<open>gcTarget db\<close>, or the pass has collected exactly the batch size and a signal
  is pending. With capacity 100, accountant 150 and batch size
  \<open>gcBatchSize\<close> the target is 90, the pass collects the first 60 entries of
  the index, leaves the accountant at 90 and no signal pending.
\<close>

theorem pass_reaches_target_or_cap:
  assumes "writeFault f = None" and "iterFault f = None"
    and "tryRecv db0 = Some db"
    and "1 \<le> bs"
    and "min bs (gcSize db - gcTarget db) \<le> int (length (gcIndex db))"
  shows "(gcSize (store_after (collectGarbage_pass (gcTarget db) bs f db)) \<le> gcTarget db \<or>
          (collectedCount (run (collectGarbage_pass (gcTarget db) bs f db)) = bs \<and>
           collectGarbageTrigger (store_after (collectGarbage_pass (gcTarget db) bs f db)))) \<and>
         (capacity db = 100 \<and> gcSize db = 150 \<and> bs = gcBatchSize \<longrightarrow>
            gcTarget db = 90 \<and>
            collectedCount (run (collectGarbage_pass (gcTarget db) bs f db)) = 60 \<and>
            batch (run (collectGarbage_pass (gcTarget db) bs f db)) =
              concat (map (deletions db) (take 60 (gcIndex db))) \<and>
            gcSize (store_after (collectGarbage_pass (gcTarget db) bs f db)) = 90 \<and>
            \<not> collectGarbageTrigger (store_after (collectGarbage_pass (gcTarget db) bs f db)))"
proof -
  let ?t = "gcTarget db"
  let ?p = "collectGarbage_pass ?t bs f db"
  note it = gcIterate_exact [OF assms(2) assms(4) assms(5)]
  have idle: "\<not> collectGarbageTrigger db"
    using tryRecv_Some [OF assms(3)] by simp
  have run: "collectedCount (run ?p) = max 0 (min bs (gcSize db - ?t))"
    "batch (run ?p) = concat (map (deletions db) (take (nat (min bs (gcSize db - ?t))) (gcIndex db)))"
    by (simp_all add: pass_fields it)
  have size: "gcSize (store_after ?p) = gcSize db - max 0 (min bs (gcSize db - ?t))"
    using pass_written_fields(1) [OF it assms(1)] by simp
  have trig: "collectGarbageTrigger (store_after ?p) =
      (capacity db \<le> gcSize db - max 0 (min bs (gcSize db - ?t)) \<or> bs \<le> gcSize db - ?t)"
    using pass_written_fields(3) [OF it assms(1)] idle by simp
  have general: "gcSize (store_after ?p) \<le> ?t \<or>
      (collectedCount (run ?p) = bs \<and> collectGarbageTrigger (store_after ?p))"
    using assms(4) by (simp add: run size trig) linarith
  have scenario: "gcTarget db = 90 \<and> collectedCount (run ?p) = 60 \<and>
      batch (run ?p) = concat (map (deletions db) (take 60 (gcIndex db))) \<and>
      gcSize (store_after ?p) = 90 \<and> \<not> collectGarbageTrigger (store_after ?p)"
    if "capacity db = 100" "gcSize db = 150" "bs = gcBatchSize"
  proof -
    have t: "?t = 90" using gcTarget_exact [of db] that(1) by simp
    show ?thesis using run size trig that unfolding t by (simp add: gcBatchSize_def)
  qed
  from general scenario show ?thesis by blast
qed

text \<open>The scenario on an index of 150 entries.\<close>

theorem pass_reaches_target_or_cap_witness:
  "tryRecv ((exampleStore 100 150 [0..<150])\<lparr>collectGarbageTrigger := True\<rparr>)
     = Some (exampleStore 100 150 [0..<150]) \<and>
   min gcBatchSize (gcSize (exampleStore 100 150 [0..<150]) - gcTarget (exampleStore 100 150 [0..<150]))
     \<le> int (length (gcIndex (exampleStore 100 150 [0..<150]))) \<and>
   gcTarget (exampleStore 100 150 [0..<150]) = 90 \<and>
   collectedCount (run (collectGarbage_pass (gcTarget (exampleStore 100 150 [0..<150]))
     gcBatchSize noFaults (exampleStore 100 150 [0..<150]))) = 60 \<and>
   gcSize (store_after (collectGarbage_pass (gcTarget (exampleStore 100 150 [0..<150]))
     gcBatchSize noFaults (exampleStore 100 150 [0..<150]))) = 90 \<and>
   \<not> collectGarbageTrigger (store_after (collectGarbage_pass (gcTarget (exampleStore 100 150 [0..<150]))
     gcBatchSize noFaults (exampleStore 100 150 [0..<150])))"
proof -
  let ?db = "exampleStore 100 150 [0..<150]"
  have f: "writeFault noFaults = None" "iterFault noFaults = None"
    by (simp_all add: noFaults_def)
  have rc: "tryRecv (?db\<lparr>collectGarbageTrigger := True\<rparr>) = Some ?db"
    by (simp add: tryRecv_def exampleStore_def)
  have b: "1 \<le> gcBatchSize" by (simp add: gcBatchSize_def)
  have d: "capacity ?db = 100" "gcSize ?db = 150" "length (gcIndex ?db) = 150"
    by (simp_all add: exampleStore_def)
  have t: "gcTarget ?db = 90" using gcTarget_exact [of ?db] by (simp add: d)
  have e: "min gcBatchSize (gcSize ?db - gcTarget ?db) \<le> int (length (gcIndex ?db))"
    by (simp add: d t gcBatchSize_def)
  from pass_reaches_target_or_cap [OF f rc b e] d rc e show ?thesis by blast
qed

text \<open>
  Claim C3. At every visited entry the visitor reads \<open>gcSize\<close>. If
  \<open>gcSize - collectedCount \<le> target\<close> it stops the iteration and leaves the
  batch and \<open>collectedCount\<close> as they are; otherwise it queues the deletion of
  the entry from the retrieval indexes in use, from the pull index and from the gc
  index, and \<open>collectedCount\<close> grows by one.
\<close>

theorem visit_stops_or_queues:
  "(gcSize db - collectedCount r \<le> target \<longrightarrow>
      gcVisit target bs db r item = (True, None, r) \<and>
      IterateAll (gcVisit target bs db) (Inr item # rest) r = (None, r)) \<and>
   (\<not> gcSize db - collectedCount r \<le> target \<longrightarrow>
      gcVisit target bs db r item =
        (bs \<le> collectedCount r + 1, None,
         r\<lparr>batch := batch r @
               (if useRetrievalCompositeIndex db
                then [(RetrievalCompositeIndex, item), (PullIndex, item), (GCIndex, item)]
                else [(RetrievalDataIndex, item), (RetrievalAccessIndex, item),
                      (PullIndex, item), (GCIndex, item)]),
           collectedCount := collectedCount r + 1,
           triggerNextIteration := (bs \<le> collectedCount r + 1 \<or> triggerNextIteration r)\<rparr>))"
  by (simp add: gcVisit_stop gcVisit_collect deletions_def)

text \<open>One visit that stops at the target and one that queues the deletions of entry 4.\<close>

theorem visit_stops_or_queues_witness:
  "gcSize (exampleStore 10 9 [4, 5])
     - collectedCount \<lparr>batch = [], collectedCount = 0, triggerNextIteration = False\<rparr> \<le> 9 \<and>
   gcVisit 9 1000 (exampleStore 10 9 [4, 5])
       \<lparr>batch = [], collectedCount = 0, triggerNextIteration = False\<rparr> 4
     = (True, None, \<lparr>batch = [], collectedCount = 0, triggerNextIteration = False\<rparr>) \<and>
   \<not> gcSize (exampleStore 10 12 [4, 5])
     - collectedCount \<lparr>batch = [], collectedCount = 0, triggerNextIteration = False\<rparr> \<le> 9 \<and>
   gcVisit 9 1000 (exampleStore 10 12 [4, 5])
       \<lparr>batch = [], collectedCount = 0, triggerNextIteration = False\<rparr> 4
     = (False, None,
        \<lparr>batch = [(RetrievalDataIndex, 4), (RetrievalAccessIndex, 4), (PullIndex, 4), (GCIndex, 4)],
         collectedCount = 1, triggerNextIteration = False\<rparr>)"
  using visit_stops_or_queues [of "exampleStore 10 9 [4, 5]"
      "\<lparr>batch = [], collectedCount = 0, triggerNextIteration = False\<rparr>" 9 1000 4 "[]"]
    visit_stops_or_queues [of "exampleStore 10 12 [4, 5]"
      "\<lparr>batch = [], collectedCount = 0, triggerNextIteration = False\<rparr>" 9 1000 4 "[]"]
  by (simp add: exampleStore_def)

text \<open>
  Claim C4. With a batch size of at least 1 (the initial \<open>gcBatchSize\<close> is 1000),
  a pass whose \<open>collectedCount\<close> reaches the batch size has collected exactly
  that many entries and has set \<open>triggerNextIteration\<close>. The accountant is
  decremented by \<open>collectedCount\<close> if and only if the batch write succeeds, and
  a signal is pending after the pass if and only if the batch write succeeds; the
  write fails if and only if the pass leaves the store as it found it.
\<close>

theorem cap_hit_rearms_iff_committed:
  assumes "1 \<le> bs"
    and "tryRecv db0 = Some db"
    and "bs \<le> collectedCount (run (collectGarbage_pass target bs f db))"
  shows "collectedCount (run (collectGarbage_pass target bs f db)) = bs \<and>
         triggerNextIteration (run (collectGarbage_pass target bs f db)) \<and>
         (writeErr (collectGarbage_pass target bs f db) = None \<longleftrightarrow>
            gcSize (store_after (collectGarbage_pass target bs f db)) = gcSize db - bs) \<and>
         (writeErr (collectGarbage_pass target bs f db) = None \<longleftrightarrow>
            collectGarbageTrigger (store_after (collectGarbage_pass target bs f db))) \<and>
         (writeErr (collectGarbage_pass target bs f db) \<noteq> None \<longleftrightarrow>
            store_after (collectGarbage_pass target bs f db) = db)"
proof -
  obtain err r where it: "gcIterate target bs f db = (err, r)"
    by (cases "gcIterate target bs f db")
  from assms(3) have hit: "bs \<le> collectedCount r" by (simp add: pass_fields it)
  with gcIterate_cap [OF it assms(1)]
  have r: "collectedCount r = bs" "triggerNextIteration r" by simp_all
  have idle: "\<not> collectGarbageTrigger db"
    using tryRecv_Some [OF assms(2)] by simp
  show ?thesis
  proof (cases "writeFault f")
    case None
    have "store_after (collectGarbage_pass target bs f db) \<noteq> db"
      using pass_written_fields(3) [OF it None] r idle by auto
    with r pass_written_fields [OF it None] None show ?thesis
      by (simp add: pass_fields it)
  next
    case (Some e)
    with r idle assms(1) pass_write_failed [OF it Some] show ?thesis
      by (simp add: pass_fields)
  qed
qed

text \<open>
  Two passes with batch size 2 over three entries, 6 above the target: one whose
  write succeeds (accountant 13, signal pending), one whose write fails
  (accountant 15, no signal).
\<close>

theorem cap_hit_rearms_iff_committed_witness:
  "(1::int) \<le> 2 \<and>
   tryRecv ((exampleStore 10 15 [1, 2, 3])\<lparr>collectGarbageTrigger := True\<rparr>)
     = Some (exampleStore 10 15 [1, 2, 3]) \<and>
   collectedCount (run (collectGarbage_pass 9 2 noFaults (exampleStore 10 15 [1, 2, 3]))) = 2 \<and>
   writeErr (collectGarbage_pass 9 2 noFaults (exampleStore 10 15 [1, 2, 3])) = None \<and>
   gcSize (store_after (collectGarbage_pass 9 2 noFaults (exampleStore 10 15 [1, 2, 3]))) = 13 \<and>
   collectGarbageTrigger (store_after (collectGarbage_pass 9 2 noFaults (exampleStore 10 15 [1, 2, 3]))) \<and>
   collectedCount (run (collectGarbage_pass 9 2 \<lparr>iterFault = None, writeFault = Some ''disk full''\<rparr>
     (exampleStore 10 15 [1, 2, 3]))) = 2 \<and>
   writeErr (collectGarbage_pass 9 2 \<lparr>iterFault = None, writeFault = Some ''disk full''\<rparr>
     (exampleStore 10 15 [1, 2, 3])) = Some ''disk full'' \<and>
   gcSize (store_after (collectGarbage_pass 9 2 \<lparr>iterFault = None, writeFault = Some ''disk full''\<rparr>
     (exampleStore 10 15 [1, 2, 3]))) = 15 \<and>
   \<not> collectGarbageTrigger (store_after (collectGarbage_pass 9 2
     \<lparr>iterFault = None, writeFault = Some ''disk full''\<rparr> (exampleStore 10 15 [1, 2, 3])))"
proof -
  define db where "db = exampleStore 10 15 [1, 2, 3]"
  define bad where "bad = \<lparr>iterFault = None, writeFault = Some ''disk full''\<rparr>"
  have rc: "tryRecv (db\<lparr>collectGarbageTrigger := True\<rparr>) = Some db"
    by (simp add: tryRecv_def db_def exampleStore_def)
  have c: "collectedCount (run (collectGarbage_pass 9 2 noFaults db)) = 2"
    by (simp add: pass_fields gcIterate_def entries_def gcVisit_def DeleteInBatch_def
        db_def exampleStore_def noFaults_def Let_def)
  have c': "collectedCount (run (collectGarbage_pass 9 2 bad db)) = 2"
    by (simp add: pass_fields gcIterate_def entries_def gcVisit_def DeleteInBatch_def
        db_def bad_def exampleStore_def Let_def)
  have w: "writeErr (collectGarbage_pass 9 2 noFaults db) = None"
    by (simp add: pass_fields noFaults_def)
  have w': "writeErr (collectGarbage_pass 9 2 bad db) = Some ''disk full''"
    by (simp add: pass_fields bad_def)
  have g: "gcSize db = 15" and t: "\<not> collectGarbageTrigger db"
    by (simp_all add: db_def exampleStore_def)
  have one: "(1::int) \<le> 2" by simp
  have h: "(2::int) \<le> collectedCount (run (collectGarbage_pass 9 2 noFaults db))"
    "(2::int) \<le> collectedCount (run (collectGarbage_pass 9 2 bad db))"
    by (simp_all add: c c')
  note ok = cap_hit_rearms_iff_committed [OF one rc h(1)]
  note ko = cap_hit_rearms_iff_committed [OF one rc h(2)]
  from ok w have "gcSize (store_after (collectGarbage_pass 9 2 noFaults db)) = 13"
    and "collectGarbageTrigger (store_after (collectGarbage_pass 9 2 noFaults db))"
    by (simp_all add: g)
  moreover from ko w'
  have "store_after (collectGarbage_pass 9 2 bad db) = db" by simp
  then have "gcSize (store_after (collectGarbage_pass 9 2 bad db)) = 15"
    and "\<not> collectGarbageTrigger (store_after (collectGarbage_pass 9 2 bad db))"
    by (simp_all add: g t)
  ultimately have "(1::int) \<le> 2 \<and>
   tryRecv (db\<lparr>collectGarbageTrigger := True\<rparr>) = Some db \<and>
   collectedCount (run (collectGarbage_pass 9 2 noFaults db)) = 2 \<and>
   writeErr (collectGarbage_pass 9 2 noFaults db) = None \<and>
   gcSize (store_after (collectGarbage_pass 9 2 noFaults db)) = 13 \<and>
   collectGarbageTrigger (store_after (collectGarbage_pass 9 2 noFaults db)) \<and>
   collectedCount (run (collectGarbage_pass 9 2 bad db)) = 2 \<and>
   writeErr (collectGarbage_pass 9 2 bad db) = Some ''disk full'' \<and>
   gcSize (store_after (collectGarbage_pass 9 2 bad db)) = 15 \<and>
   \<not> collectGarbageTrigger (store_after (collectGarbage_pass 9 2 bad db))"
    using rc c c' w w' by simp
  then show ?thesis unfolding db_def bad_def .
qed

text \<open>
  Claim C5, as stated, fails: the product is rounded to a float64 before it is
  truncated. For the capacity 1250999896491811 the product
  1125899906842629.9 lies between two float64 values a quarter apart and rounds
  up to 1125899906842630, one more than the integer part.
\<close>

theorem gcTarget_floor_counterexample:
  "0 \<le> capacity (exampleStore 1250999896491811 0 []) \<and>
   gcTarget (exampleStore 1250999896491811 0 []) = 1125899906842630 \<and>
   capacity (exampleStore 1250999896491811 0 []) * 9 div 10 = 1125899906842629"
proof -
  have c: "capacity (exampleStore 1250999896491811 0 []) = 1250999896491811"
    by (simp add: exampleStore_def)
  have x: "round53 1250999896491811 = 1250999896491811"
    by (rule round53_small) simp
  have "bitlen 10141204801825888604649207913223 = Suc 103"
    by (rule bitlen_eq) simp_all
  then have "round53 10141204801825888604649207913223 = 10141204801825889255169154088960"
    by (simp add: round53_def Let_def)
  then have "gcTarget (exampleStore 1250999896491811 0 []) = 1125899906842630"
    by (simp add: gcTarget_def Let_def c x gcTargetRatio_significand_def)
  then show ?thesis by (simp add: c)
qed

text \<open>
  Claim C5, amended. For every capacity from 0 up to, but not including,
  1250999896491811, \<open>gcTarget\<close> is the integer part of nine tenths of the
  capacity, and this is the target that \<^verbatim>\<open>collectGarbage\<close> computes before its
  loop and uses in every pass.
\<close>

theorem gcTarget_floor:
  assumes "0 \<le> capacity db" and "capacity db < 1250999896491811"
  shows "gcTarget db = capacity db * 9 div 10 \<and>
         collectGarbage bs db evs = foldl (step (capacity db * 9 div 10) bs) (started db) evs"
proof -
  have "gcTarget db = capacity db * 9 div 10"
  proof (cases "capacity db \<le> 1250999896491804")
    case True
    with assms(1) show ?thesis by (rule gcTarget_exact)
  next
    case False
    then show ?thesis using assms(2) by (intro gcTarget_exact_edge) simp_all
  qed
  then show ?thesis by (simp add: collectGarbage_def)
qed

text \<open>The capacity 100 has the target 90.\<close>

theorem gcTarget_floor_witness:
  "(0::int) \<le> capacity (exampleStore 100 150 []) \<and>
   capacity (exampleStore 100 150 []) < 1250999896491811 \<and>
   gcTarget (exampleStore 100 150 []) = 90"
proof -
  have c: "capacity (exampleStore 100 150 []) = 100" by (simp add: exampleStore_def)
  from gcTarget_floor [of "exampleStore 100 150 []" 1000 "[]"] c show ?thesis by simp
qed

text \<open>
  Claim C6, as stated, fails: the signal of the sequence starts one pass, but a
  pass that is cut short by the batch size sends a signal itself, so more than
  one pass runs. Here the batch size is 2, the capacity 10 and the target 9; three
  increments take the accountant from 6 to 13, and the collector runs two passes
  of two entries each.
\<close>

theorem requests_coalesce_counterexample:
  "[5, 1, 1] \<noteq> ([]::int list) \<and>
   results (exampleStore 10 6 [10..<23]) [5, 1, 1] = [11, 12, 13] \<and>
   capacity (exampleStore 10 6 [10..<23]) = 10 \<and>
   hookCalls (collectGarbage 2 (exampleStore 10 6 [10..<23])
     (map IncGCSize [5, 1, 1] @ [Trigger noFaults, Trigger noFaults])) = [2, 2]"
proof -
  define db where "db = exampleStore 10 6 [10..<23]"
  have r: "results db [5, 1, 1] = [11, 12, 13]"
    by (simp add: incGCSize_eq db_def exampleStore_def)
  have c: "capacity db = 10" by (simp add: db_def exampleStore_def)
  have t: "gcTarget db = 9" using gcTarget_exact [of db] by (simp add: c)
  have "hookCalls (foldl (step 9 2) (started db)
     (map IncGCSize [5, 1, 1] @ [Trigger noFaults, Trigger noFaults])) = [2, 2]"
    by (simp add: started_def db_def exampleStore_def noFaults_def incGCSize_eq trySend_def
        tryRecv_def collectGarbage_pass_def gcIterate_def entries_def gcVisit_def
        WriteBatch_def DeleteInBatch_def Let_def)
  then have "hookCalls (collectGarbage 2 db
     (map IncGCSize [5, 1, 1] @ [Trigger noFaults, Trigger noFaults])) = [2, 2]"
    by (simp only: collectGarbage_def t)
  with r c have "[5, 1, 1] \<noteq> ([]::int list) \<and> results db [5, 1, 1] = [11, 12, 13] \<and>
    capacity db = 10 \<and>
    hookCalls (collectGarbage 2 db
     (map IncGCSize [5, 1, 1] @ [Trigger noFaults, Trigger noFaults])) = [2, 2]"
    by simp
  then show ?thesis unfolding db_def .
qed

text \<open>
  Claim C6, amended. After any non-empty sequence of calls of \<^verbatim>\<open>incGCSize\<close>
  whose results all reach the capacity (and lie in the range of int64), the slot
  holds a signal; one receive takes it and a second receive finds none; the store
  is the one that a single call with the sum of the counts leaves. No send
  blocks: a further call of \<^verbatim>\<open>incGCSize\<close> on the full slot returns with only
  the accountant changed, its send dropped. However often the collector takes the
  trigger branch after the sequence, exactly one pass runs, provided that this
  pass leaves no signal pending of its own.
\<close>

theorem requests_coalesce:
  assumes "counts \<noteq> []"
    and "\<forall>v\<in>set (results db counts). capacity db \<le> v \<and> int64 v"
  shows "collectGarbageTrigger (foldl incGCSize db counts) \<and>
         (\<exists>db1. tryRecv (foldl incGCSize db counts) = Some db1 \<and> tryRecv db1 = None) \<and>
         foldl incGCSize db counts = incGCSize db (sum_list counts) \<and>
         incGCSize (foldl incGCSize db counts) c =
           (foldl incGCSize db counts)\<lparr>gcSize := gcSize (foldl incGCSize db counts) + c\<rparr> \<and>
         (collector w = Idle \<and> store w = db \<and> fs \<noteq> [] \<and>
          \<not> collectGarbageTrigger (store_after (collectGarbage_pass target bs (hd fs)
              ((incGCSize db (sum_list counts))\<lparr>collectGarbageTrigger := False\<rparr>))) \<longrightarrow>
            length (hookCalls (foldl (step target bs) w (map IncGCSize counts @ map Trigger fs)))
              = length (hookCalls w) + 1)"
proof -
  let ?db = "foldl incGCSize db counts"
  have reach: "\<forall>v\<in>set (results db counts). capacity db \<le> v" using assms(2) by blast
  from results_last [OF assms(1)] reach
  have pending: "collectGarbageTrigger ?db" by (auto simp add: results_capacity)
  have one: "\<exists>db1. tryRecv ?db = Some db1 \<and> tryRecv db1 = None"
    using pending by (simp add: tryRecv_def)
  have same: "?db = incGCSize db (sum_list counts)"
    using assms(1) reach by (rule foldl_incGCSize_coalesce)
  have dropped: "incGCSize ?db c = ?db\<lparr>gcSize := gcSize ?db + c\<rparr>"
    using pending by (simp add: incGCSize_eq)
  have "length (hookCalls (foldl (step target bs) w (map IncGCSize counts @ map Trigger fs)))
              = length (hookCalls w) + 1"
    if idle: "collector w = Idle" and st: "store w = db" and fs: "fs \<noteq> []"
      and quiet: "\<not> collectGarbageTrigger (store_after (collectGarbage_pass target bs (hd fs)
              ((incGCSize db (sum_list counts))\<lparr>collectGarbageTrigger := False\<rparr>)))"
  proof -
    obtain f fs' where f: "fs = f # fs'" using fs by (cases fs) auto
    define db1 where "db1 = ?db\<lparr>collectGarbageTrigger := False\<rparr>"
    define p where "p = collectGarbage_pass target bs f db1"
    define w1 where "w1 = w\<lparr>store := store_after p, logs := logs w @ logged p,
        hookCalls := hookCalls w @ [hooked p]\<rparr>"
    have recv: "tryRecv ?db = Some db1"
      using pending by (simp add: tryRecv_def db1_def)
    have first: "step target bs (w\<lparr>store := ?db\<rparr>) (Trigger f) = w1"
      using idle recv by (simp add: w1_def p_def Let_def)
    have "\<not> collectGarbageTrigger (store w1)"
      using quiet by (simp add: w1_def p_def db1_def f same)
    then have "foldl (step target bs) w1 (map Trigger fs') = w1"
      by (rule foldl_step_Trigger_empty)
    then have "foldl (step target bs) w (map IncGCSize counts @ map Trigger fs) = w1"
      using first st by (simp add: f foldl_step_IncGCSize del: step.simps)
    then show ?thesis by (simp add: w1_def)
  qed
  with pending one same dropped show ?thesis by blast
qed

text \<open>
  Three increments above a capacity of 10, then the collector scheduled three
  times: the one pass removes four entries and ends below the capacity.
\<close>

theorem requests_coalesce_witness:
  "[5, 1, 1] \<noteq> ([]::int list) \<and>
   results (exampleStore 10 6 [10..<23]) [5, 1, 1] = [11, 12, 13] \<and>
   capacity (exampleStore 10 6 [10..<23]) = 10 \<and>
   int64 11 \<and> int64 12 \<and> int64 13 \<and>
   collectGarbageTrigger (foldl incGCSize (exampleStore 10 6 [10..<23]) [5, 1, 1]) \<and>
   foldl incGCSize (exampleStore 10 6 [10..<23]) [5, 1, 1]
     = incGCSize (exampleStore 10 6 [10..<23]) 7 \<and>
   \<not> collectGarbageTrigger (store_after (collectGarbage_pass 9 1000 noFaults
       ((incGCSize (exampleStore 10 6 [10..<23]) 7)\<lparr>collectGarbageTrigger := False\<rparr>))) \<and>
   length (hookCalls (foldl (step 9 1000) (started (exampleStore 10 6 [10..<23]))
     (map IncGCSize [5, 1, 1] @ map Trigger [noFaults, noFaults, noFaults]))) = 1"
proof -
  define db where "db = exampleStore 10 6 [10..<23]"
  have r: "results db [5, 1, 1] = [11, 12, 13]"
    by (simp add: incGCSize_eq db_def exampleStore_def)
  have c: "capacity db = 10" by (simp add: db_def exampleStore_def)
  have i: "int64 11" "int64 12" "int64 13" by (simp_all add: int64_def)
  have h: "\<forall>v\<in>set (results db [5, 1, 1]). capacity db \<le> v \<and> int64 v"
    unfolding r c using i by simp
  have n: "[5, 1, 1] \<noteq> ([]::int list)" by simp
  have s: "sum_list [5, 1, 1] = (7::int)" by simp
  have q: "\<not> collectGarbageTrigger (store_after (collectGarbage_pass 9 1000 noFaults
       ((incGCSize db 7)\<lparr>collectGarbageTrigger := False\<rparr>)))"
    by (simp add: collectGarbage_pass_def gcIterate_def entries_def gcVisit_def WriteBatch_def
        DeleteInBatch_def incGCSize_eq trySend_def noFaults_def db_def exampleStore_def Let_def)
  have w: "collector (started db) = Idle" "store (started db) = db"
    "length (hookCalls (started db)) = 0"
    by (simp_all add: started_def)
  note th = requests_coalesce [OF n h, of 0 "started db" "[noFaults, noFaults, noFaults]" 9 1000,
      unfolded s]
  have f: "[noFaults, noFaults, noFaults] \<noteq> []" by simp
  have q': "\<not> collectGarbageTrigger (store_after (collectGarbage_pass 9 1000
       (hd [noFaults, noFaults, noFaults])
       ((incGCSize db 7)\<lparr>collectGarbageTrigger := False\<rparr>)))"
    using q by simp
  from th w(1,2) f q'
  have "collectGarbageTrigger (foldl incGCSize db [5, 1, 1])"
    and "foldl incGCSize db [5, 1, 1] = incGCSize db 7"
    and "length (hookCalls (foldl (step 9 1000) (started db)
      (map IncGCSize [5, 1, 1] @ map Trigger [noFaults, noFaults, noFaults])))
      = length (hookCalls (started db)) + 1"
    by blast+
  with n r c i q have "[5, 1, 1] \<noteq> ([]::int list) \<and>
   results db [5, 1, 1] = [11, 12, 13] \<and> capacity db = 10 \<and>
   int64 11 \<and> int64 12 \<and> int64 13 \<and>
   collectGarbageTrigger (foldl incGCSize db [5, 1, 1]) \<and>
   foldl incGCSize db [5, 1, 1] = incGCSize db 7 \<and>
   \<not> collectGarbageTrigger (store_after (collectGarbage_pass 9 1000 noFaults
       ((incGCSize db 7)\<lparr>collectGarbageTrigger := False\<rparr>))) \<and>
   length (hookCalls (foldl (step 9 1000) (started db)
     (map IncGCSize [5, 1, 1] @ map Trigger [noFaults, noFaults, noFaults]))) = 1"
    using w(3) by (simp only: simp_thms add_0)
  then show ?thesis unfolding db_def .
qed

text \<open>
  Claim C7. When the iteration of the gc index returns an error, the error is
  logged; the iterator had failed after some \<open>k\<close> entries and the batch holds
  the deletions of all of them; \<^verbatim>\<open>WriteBatch\<close> is still called on that batch,
  its result being the one the engine gives; when it succeeds these deletions are
  applied and the accountant is decremented by their number; and the collector
  stays in its loop.
\<close>

theorem iteration_error_still_commits:
  assumes "iterErr (collectGarbage_pass target bs f db) = Some e"
  shows "(''localstore collect garbage'', e) \<in> set (logged (collectGarbage_pass target bs f db)) \<and>
         (\<exists>k. iterFault f = Some (k, e) \<and>
              batch (run (collectGarbage_pass target bs f db)) =
                concat (map (deletions db) (take k (gcIndex db))) \<and>
              collectedCount (run (collectGarbage_pass target bs f db)) =
                int (length (take k (gcIndex db)))) \<and>
         writeErr (collectGarbage_pass target bs f db) = writeFault f \<and>
         (writeFault f = None \<longrightarrow>
            store_after (collectGarbage_pass target bs f db) =
              incGCSize (fold deleteEntry (batch (run (collectGarbage_pass target bs f db))) db)
                (- collectedCount (run (collectGarbage_pass target bs f db)))) \<and>
         collector (step target bs w (Trigger f)) = collector w"
proof -
  obtain err r where it: "gcIterate target bs f db = (err, r)"
    by (cases "gcIterate target bs f db")
  with assms have err: "err = Some e" by (simp add: pass_fields)
  from gcIterate_error [OF it [unfolded err]]
  obtain k where k: "iterFault f = Some (k, e)"
    and r: "r = \<lparr>batch = concat (map (deletions db) (take k (gcIndex db))),
                collectedCount = int (length (take k (gcIndex db))),
                triggerNextIteration = False\<rparr>"
    by blast
  have logged: "(''localstore collect garbage'', e) \<in> set (logged (collectGarbage_pass target bs f db))"
    by (cases "writeFault f") (simp_all add: pass_written [OF it] pass_write_failed [OF it] err)
  have run: "run (collectGarbage_pass target bs f db) = r" by (simp add: pass_fields it)
  have written: "store_after (collectGarbage_pass target bs f db) =
      incGCSize (fold deleteEntry (batch r) db) (- collectedCount r)"
    if "writeFault f = None"
    using pass_written [OF it that] by (simp add: r)
  have idle: "collector (step target bs w (Trigger f)) = collector w"
    by (simp add: Let_def split: option.splits)
  from logged k r written idle show ?thesis
    by (simp add: run pass_fields(3))
qed

text \<open>
  The iterator fails after three of five entries: the three are deleted and the
  accountant goes from 22 to 19.
\<close>

theorem iteration_error_still_commits_witness:
  "iterErr (collectGarbage_pass 18 1000 \<lparr>iterFault = Some (3, ''read error''), writeFault = None\<rparr>
     (exampleStore 20 22 [10, 20, 30, 40, 50])) = Some ''read error'' \<and>
   batch (run (collectGarbage_pass 18 1000 \<lparr>iterFault = Some (3, ''read error''), writeFault = None\<rparr>
     (exampleStore 20 22 [10, 20, 30, 40, 50]))) =
     concat (map (deletions (exampleStore 20 22 [10, 20, 30, 40, 50])) [10, 20, 30]) \<and>
   gcIndex (store_after (collectGarbage_pass 18 1000
     \<lparr>iterFault = Some (3, ''read error''), writeFault = None\<rparr>
     (exampleStore 20 22 [10, 20, 30, 40, 50]))) = [40, 50] \<and>
   gcSize (store_after (collectGarbage_pass 18 1000
     \<lparr>iterFault = Some (3, ''read error''), writeFault = None\<rparr>
     (exampleStore 20 22 [10, 20, 30, 40, 50]))) = 19"
proof -
  let ?f = "\<lparr>iterFault = Some (3, ''read error''), writeFault = None\<rparr>"
  let ?db = "exampleStore 20 22 [10, 20, 30, 40, 50]"
  let ?p = "collectGarbage_pass 18 1000 ?f ?db"
  have e: "iterErr ?p = Some ''read error''"
    by (simp add: pass_fields gcIterate_def entries_def gcVisit_def DeleteInBatch_def
        exampleStore_def Let_def)
  have i: "gcIndex ?db = [10, 20, 30, 40, 50]" by (simp add: exampleStore_def)
  from iteration_error_still_commits [OF e, of "started ?db"]
  have b: "batch (run ?p) = concat (map (deletions ?db) [10, 20, 30])"
    and c: "collectedCount (run ?p) = 3"
    and s: "store_after ?p = incGCSize (fold deleteEntry (batch (run ?p)) ?db)
          (- collectedCount (run ?p))"
    by (simp_all add: i)
  have "gcIndex (store_after ?p) = [40, 50]"
    unfolding s b c by (simp add: deletions_def incGCSize_eq exampleStore_def)
  moreover have "gcSize (store_after ?p) = 19"
    unfolding s c by (simp add: incGCSize_fields fold_deleteEntry_keeps exampleStore_def)
  ultimately show ?thesis using e b by simp
qed

text \<open>
  Claim C8. Started with the accountant at 0 and a capacity that is not negative,
  after every sequence of events in which each foreground increment is positive
  and the increments sum to less than \<open>2 ^ 63\<close>, the accountant equals the sum
  of the increments less the collected counts of the passes whose batch was
  written, and it is not negative. After every prefix of the sequence the
  accountant lies between 0 and \<open>2 ^ 63\<close>, so that no addition of the run leaves
  the range of int64.
\<close>

theorem accountant_balance:
  assumes "0 \<le> capacity db" and "gcSize db = 0"
    and "admissions evs" and "admitted evs < 2 ^ 63"
  shows "gcSize (store (collectGarbage bs db evs)) =
           admitted evs - evicted (gcTarget db) bs (started db) evs \<and>
         0 \<le> gcSize (store (collectGarbage bs db evs)) \<and>
         (\<forall>n. 0 \<le> gcSize (store (collectGarbage bs db (take n evs))) \<and>
              int64 (gcSize (store (collectGarbage bs db (take n evs)))))"
proof -
  have start: "0 \<le> gcSize (store (started db))" "gcSize (store (started db)) = 0"
    using assms(2) by (simp_all add: started_def)
  have balance: "gcSize (store (collectGarbage bs db es)) =
           admitted es - evicted (gcTarget db) bs (started db) es \<and>
         0 \<le> gcSize (store (collectGarbage bs db es))"
    if "admissions es" for es
    using run_balance [OF gcTarget_nonneg [OF assms(1)] start(1) that, of bs] start(2)
    by (simp add: collectGarbage_def)
  have "0 \<le> gcSize (store (collectGarbage bs db (take n evs))) \<and>
        int64 (gcSize (store (collectGarbage bs db (take n evs))))" for n
  proof -
    note b = balance [OF admissions_take [OF assms(3), of n]]
    have "gcSize (store (collectGarbage bs db (take n evs))) \<le> admitted (take n evs)"
      using b evicted_nonneg [of "gcTarget db" bs "started db" "take n evs"] by simp
    also have "\<dots> \<le> admitted evs" using assms(3) by (rule admitted_take)
    finally have "gcSize (store (collectGarbage bs db (take n evs))) < 2 ^ 63"
      using assms(4) by simp
    with b show ?thesis by (simp add: int64_def)
  qed
  with balance [OF assms(3)] show ?thesis by blast
qed

text \<open>
  Twelve admissions, a pass whose write fails, one more admission, a pass that
  removes the one entry of the index: 13 admitted, 1 removed, accountant 12.
\<close>

theorem accountant_balance_witness:
  "0 \<le> capacity (exampleStore 10 0 []) \<and>
   gcSize (exampleStore 10 0 []) = 0 \<and>
   admissions [IncGCSize 12, IndexPut GCIndex 10,
     Trigger \<lparr>iterFault = None, writeFault = Some ''disk full''\<rparr>,
     IncGCSize 1, Trigger noFaults] \<and>
   admitted [IncGCSize 12, IndexPut GCIndex (10::nat),
     Trigger \<lparr>iterFault = None, writeFault = Some ''disk full''\<rparr>,
     IncGCSize 1, Trigger noFaults] = 13 \<and>
   (13::int) < 2 ^ 63 \<and>
   evicted (gcTarget (exampleStore 10 0 [])) gcBatchSize (started (exampleStore 10 0 []))
     [IncGCSize 12, IndexPut GCIndex 10,
      Trigger \<lparr>iterFault = None, writeFault = Some ''disk full''\<rparr>,
      IncGCSize 1, Trigger noFaults] = 1 \<and>
   gcSize (store (collectGarbage gcBatchSize (exampleStore 10 0 [])
     [IncGCSize 12, IndexPut GCIndex 10,
      Trigger \<lparr>iterFault = None, writeFault = Some ''disk full''\<rparr>,
      IncGCSize 1, Trigger noFaults])) = 12"
proof -
  let ?db = "exampleStore 10 0 []"
  let ?evs = "[IncGCSize 12, IndexPut GCIndex (10::nat),
     Trigger \<lparr>iterFault = None, writeFault = Some ''disk full''\<rparr>,
     IncGCSize 1, Trigger noFaults]"
  have c: "0 \<le> capacity ?db" "capacity ?db \<le> 1250999896491804" and g: "gcSize ?db = 0"
    by (simp_all add: exampleStore_def)
  have t: "gcTarget ?db = 9" using gcTarget_exact [OF c] by (simp add: exampleStore_def)
  have a: "admissions ?evs" and n: "admitted ?evs = 13" by simp_all
  have b: "admitted ?evs < 2 ^ 63" by simp
  have e: "evicted 9 gcBatchSize (started ?db) ?evs = 1"
    by (simp add: started_def exampleStore_def noFaults_def gcBatchSize_def incGCSize_eq
        tryRecv_def collectGarbage_pass_def gcIterate_def entries_def gcVisit_def
        WriteBatch_def DeleteInBatch_def Let_def)
  from accountant_balance [OF c(1) g a b, of gcBatchSize]
  have "gcSize (store (collectGarbage gcBatchSize ?db ?evs)) =
      admitted ?evs - evicted (gcTarget ?db) gcBatchSize (started ?db) ?evs"
    by blast
  with c(1) g a n e show ?thesis unfolding t by simp
qed

text \<open>
  Claim C9. The decrement after a successful write goes through \<^verbatim>\<open>incGCSize\<close>:
  if the accountant less the collected count is still at least the capacity, a
  signal is pending after the pass, whether or not the batch size was reached.
\<close>

theorem decrement_rearms_above_capacity:
  assumes "writeErr (collectGarbage_pass target bs f db) = None"
    and "capacity db \<le> gcSize db - collectedCount (run (collectGarbage_pass target bs f db))"
  shows "collectGarbageTrigger (store_after (collectGarbage_pass target bs f db)) \<and>
         tryRecv (store_after (collectGarbage_pass target bs f db)) \<noteq> None"
proof -
  obtain err r where it: "gcIterate target bs f db = (err, r)"
    by (cases "gcIterate target bs f db")
  from assms(1) have ok: "writeFault f = None" by (simp add: pass_fields)
  from assms(2) have "capacity db \<le> gcSize db - collectedCount r" by (simp add: pass_fields it)
  with pass_written_fields(3) [OF it ok]
  have "collectGarbageTrigger (store_after (collectGarbage_pass target bs f db))" by simp
  then show ?thesis by (simp add: tryRecv_def)
qed

text \<open>
  A pass over an index of one entry with the accountant at 12 and capacity 10: the
  batch size is not reached, and a signal is pending afterwards.
\<close>

theorem decrement_rearms_above_capacity_witness:
  "writeErr (collectGarbage_pass 9 1000 noFaults (exampleStore 10 12 [7])) = None \<and>
   capacity (exampleStore 10 12 [7])
     \<le> gcSize (exampleStore 10 12 [7])
       - collectedCount (run (collectGarbage_pass 9 1000 noFaults (exampleStore 10 12 [7]))) \<and>
   \<not> triggerNextIteration (run (collectGarbage_pass 9 1000 noFaults (exampleStore 10 12 [7]))) \<and>
   collectGarbageTrigger (store_after (collectGarbage_pass 9 1000 noFaults (exampleStore 10 12 [7])))"
proof -
  have w: "writeErr (collectGarbage_pass 9 1000 noFaults (exampleStore 10 12 [7])) = None"
    by (simp add: pass_fields noFaults_def)
  have r: "run (collectGarbage_pass 9 1000 noFaults (exampleStore 10 12 [7])) =
      \<lparr>batch = [(RetrievalDataIndex, 7), (RetrievalAccessIndex, 7), (PullIndex, 7), (GCIndex, 7)],
       collectedCount = 1, triggerNextIteration = False\<rparr>"
    by (simp add: pass_fields gcIterate_def entries_def gcVisit_def DeleteInBatch_def
        exampleStore_def noFaults_def Let_def)
  have c: "capacity (exampleStore 10 12 [7])
     \<le> gcSize (exampleStore 10 12 [7])
       - collectedCount (run (collectGarbage_pass 9 1000 noFaults (exampleStore 10 12 [7])))"
    by (simp add: r) (simp add: exampleStore_def)
  from decrement_rearms_above_capacity [OF w c] w c r show ?thesis by simp
qed

text \<open>
  Claim C10. A pass that has set \<open>triggerNextIteration\<close> and whose write fails
  sends no signal: the slot is empty after it, and after any later calls of
  \<^verbatim>\<open>incGCSize\<close> a signal is pending exactly when one of their results has
  reached the capacity.
\<close>

theorem failed_commit_does_not_rearm:
  assumes "tryRecv db0 = Some db"
    and "triggerNextIteration (run (collectGarbage_pass target bs f db))"
    and "writeErr (collectGarbage_pass target bs f db) = Some e"
  shows "\<not> collectGarbageTrigger (store_after (collectGarbage_pass target bs f db)) \<and>
         tryRecv (store_after (collectGarbage_pass target bs f db)) = None \<and>
         (tryRecv (foldl incGCSize (store_after (collectGarbage_pass target bs f db)) counts) \<noteq> None
            \<longleftrightarrow> (\<exists>v\<in>set (results (store_after (collectGarbage_pass target bs f db)) counts).
                   capacity db \<le> v))"
proof -
  obtain err r where it: "gcIterate target bs f db = (err, r)"
    by (cases "gcIterate target bs f db")
  from assms(3) have "writeFault f = Some e" by (simp add: pass_fields)
  from pass_write_failed [OF it this]
  have same: "store_after (collectGarbage_pass target bs f db) = db" by simp
  have idle: "\<not> collectGarbageTrigger db"
    using tryRecv_Some [OF assms(1)] by simp
  have "tryRecv (foldl incGCSize db counts) \<noteq> None
          \<longleftrightarrow> collectGarbageTrigger (foldl incGCSize db counts)"
    by (simp add: tryRecv_def)
  with idle show ?thesis
    by (simp add: same results_capacity) (simp add: tryRecv_def)
qed

text \<open>
  Batch size 2, write failure: no signal after the pass, none after increments
  that stay below the capacity, one after an increment that reaches it.
\<close>

theorem failed_commit_does_not_rearm_witness:
  "tryRecv ((exampleStore 10 15 [1, 2, 3])\<lparr>collectGarbageTrigger := True\<rparr>)
     = Some (exampleStore 10 15 [1, 2, 3]) \<and>
   triggerNextIteration (run (collectGarbage_pass 9 2
     \<lparr>iterFault = None, writeFault = Some ''disk full''\<rparr> (exampleStore 10 15 [1, 2, 3]))) \<and>
   writeErr (collectGarbage_pass 9 2
     \<lparr>iterFault = None, writeFault = Some ''disk full''\<rparr> (exampleStore 10 15 [1, 2, 3]))
     = Some ''disk full'' \<and>
   tryRecv (store_after (collectGarbage_pass 9 2
     \<lparr>iterFault = None, writeFault = Some ''disk full''\<rparr> (exampleStore 10 15 [1, 2, 3]))) = None \<and>
   tryRecv (foldl incGCSize (store_after (collectGarbage_pass 9 2
     \<lparr>iterFault = None, writeFault = Some ''disk full''\<rparr> (exampleStore 10 15 [1, 2, 3]))) [- 7, 1])
     = None \<and>
   tryRecv (foldl incGCSize (store_after (collectGarbage_pass 9 2
     \<lparr>iterFault = None, writeFault = Some ''disk full''\<rparr> (exampleStore 10 15 [1, 2, 3]))) [- 7, 2])
     \<noteq> None"
proof -
  let ?f = "\<lparr>iterFault = None, writeFault = Some ''disk full''\<rparr>"
  let ?db = "exampleStore 10 15 [1, 2, 3]"
  have rc: "tryRecv (?db\<lparr>collectGarbageTrigger := True\<rparr>) = Some ?db"
    by (simp add: tryRecv_def exampleStore_def)
  have t: "triggerNextIteration (run (collectGarbage_pass 9 2 ?f ?db))"
    by (simp add: pass_fields gcIterate_def entries_def gcVisit_def DeleteInBatch_def
        exampleStore_def Let_def)
  have w: "writeErr (collectGarbage_pass 9 2 ?f ?db) = Some ''disk full''"
    by (simp add: pass_fields)
  have s: "store_after (collectGarbage_pass 9 2 ?f ?db) = ?db"
    by (simp add: collectGarbage_pass_def WriteBatch_def split: prod.splits)
  have r1: "results ?db [- 7, 1] = [8, 9]" and r2: "results ?db [- 7, 2] = [8, 10]"
    by (simp_all add: incGCSize_fields) (simp_all add: exampleStore_def)
  have c: "capacity ?db = 10" by (simp add: exampleStore_def)
  note a = failed_commit_does_not_rearm [OF rc t w, of "[- 7, 1]", unfolded s r1 c]
  note b = failed_commit_does_not_rearm [OF rc t w, of "[- 7, 2]", unfolded s r2 c]
  show ?thesis unfolding s using a b rc t w by simp
qed

end
